theory Spec2Isabelle
  imports Main "HOL-Library.Word" "HOL-Library.Sublist"
begin

unbundle bit_operations_syntax

section \<open>The ViewState decoder of \<open>viewstate/parse.py\<close>\<close>

text \<open>
  The input of every decoder is a Python \<open>bytes\<close> object: a sequence of integers in
  \<open>range(256)\<close>, here a list of 8-bit words. Indexing past the end raises
  \<open>IndexError\<close>; slicing (\<open>b[i:]\<close>, \<open>b[:n]\<close>) never raises and is \<open>drop\<close> and
  \<open>take\<close>. The integers the decoders compute are Python's unbounded integers; all of
  them are built from \<open>0\<close> by \<open>|\<close> and \<open><<\<close> of non-negative values, so they are
  natural numbers, with no wrap-around. The interpreter's resource limits (recursion
  depth, memory) are not part of the model.
\<close>

type_synonym byte = "8 word"
type_synonym bytes = "byte list"

subsection \<open>Exceptions\<close>

text \<open>
  The three \<open>ViewStateException\<close>s of the module carry the data their message is
  formatted from. The other exceptions are the ones the Python runtime raises in the
  decoders: out-of-range indexing, an unhashable dictionary key, invalid UTF-8 and the
  use of an unassigned local variable.
\<close>

datatype vs_message =
    Unknown_marker byte
  | Unknown_formatted_string_type_marker bytes
  | Unknown_type_flag nat bytes

datatype error =
    ViewStateException vs_message
  | IndexError
  | TypeError
  | UnicodeDecodeError
  | UnboundLocalError

definition is_ViewStateException :: "error \<Rightarrow> bool" where
  "is_ViewStateException e = (case e of ViewStateException m \<Rightarrow> True | _ \<Rightarrow> False)"

subsection \<open>Decoded values\<close>

text \<open>
  A Python \<open>str\<close> is kept as its UTF-8 encoding, a \<open>string\<close>. A \<open>dict\<close> is an
  association list in insertion order.
\<close>

datatype "value" =
    PNone
  | PStr string
  | PInt nat
  | PBool bool
  | PTuple "value list"
  | PList "value list"
  | PDict "(value \<times> value) list"
  | PDatetime nat nat nat

type_synonym 'a result = "error + ('a \<times> bytes)"

subsection \<open>\<open>Integer.parse\<close>\<close>

text \<open>
  The \<open>while (bits < 32)\<close> loop with its three variables \<open>n\<close>, \<open>bits\<close>, \<open>i\<close>;
  \<open>b[i]\<close> raises \<open>IndexError\<close> when \<open>i\<close> is past the end. The loop exit
  (\<open>return n, b[i:]  # overflow\<close>) is the else branch.
\<close>

function Integer_loop :: "bytes \<Rightarrow> nat \<Rightarrow> nat \<Rightarrow> nat \<Rightarrow> nat result" where
  "Integer_loop b n bits i =
     (if bits < 32 then
        (if i < length b then
           (let tmp = b ! i;
                i' = i + 1;
                n' = n OR push_bit bits (unat (tmp AND 0x7f))
            in if tmp AND 0x80 = 0 then Inr (n', drop i' b)
               else Integer_loop b n' (bits + 7) i')
         else Inl IndexError)
      else Inr (n, drop i b))"
  by pat_completeness auto
termination
  by (relation "measure (\<lambda>(b, n, bits, i). 32 - bits)") auto

declare Integer_loop.simps [simp del]

definition Integer_parse :: "bytes \<Rightarrow> nat result" where
  "Integer_parse b = Integer_loop b 0 0 0"

subsection \<open>Python built-ins used by the decoders\<close>

text \<open>
  \<open>bytes.decode()\<close> is strict UTF-8: it raises \<open>UnicodeDecodeError\<close> on a byte
  sequence that is not well-formed (overlong forms, surrogates and code points beyond
  \<open>U+10FFFF\<close> included) and otherwise returns the string with that encoding.
\<close>

definition is_cont :: "byte \<Rightarrow> bool" where
  "is_cont c = (0x80 \<le> c \<and> c \<le> 0xBF)"

fun utf8_valid :: "bytes \<Rightarrow> bool" where
  "utf8_valid [] = True"
| "utf8_valid (c # cs) =
     (if c < 0x80 then utf8_valid cs
      else if 0xC2 \<le> c \<and> c \<le> 0xDF then
        (case cs of c1 # cs' \<Rightarrow> is_cont c1 \<and> utf8_valid cs' | _ \<Rightarrow> False)
      else if 0xE0 \<le> c \<and> c \<le> 0xEF then
        (case cs of c1 # c2 # cs' \<Rightarrow>
           (if c = 0xE0 then 0xA0 \<le> c1 \<and> c1 \<le> 0xBF
            else if c = 0xED then 0x80 \<le> c1 \<and> c1 \<le> 0x9F
            else is_cont c1) \<and> is_cont c2 \<and> utf8_valid cs'
         | _ \<Rightarrow> False)
      else if 0xF0 \<le> c \<and> c \<le> 0xF4 then
        (case cs of c1 # c2 # c3 # cs' \<Rightarrow>
           (if c = 0xF0 then 0x90 \<le> c1 \<and> c1 \<le> 0xBF
            else if c = 0xF4 then 0x80 \<le> c1 \<and> c1 \<le> 0x8F
            else is_cont c1) \<and> is_cont c2 \<and> is_cont c3 \<and> utf8_valid cs'
         | _ \<Rightarrow> False)
      else False)"

definition bytes_decode :: "bytes \<Rightarrow> error + string" where
  "bytes_decode s =
     (if utf8_valid s then Inr (map (\<lambda>c. char_of (unat c)) s) else Inl UnicodeDecodeError)"

text \<open>\<open>'{}'.format(n)\<close> of a non-negative integer: its decimal digits.\<close>

fun str_int :: "nat \<Rightarrow> string" where
  "str_int n =
     (if n < 10 then [char_of (48 + n)] else str_int (n div 10) @ [char_of (48 + n mod 10)])"

declare str_int.simps [simp del]

text \<open>
  \<open>d[k] = v\<close> hashes the key, which raises \<open>TypeError\<close> for a list, a dict and a
  tuple that contains one, and then looks for a stored key equal to \<open>k\<close> under
  Python's \<open>==\<close>, for which \<open>True == 1\<close> and \<open>False == 0\<close>. A stored key keeps
  its place and its first spelling; only its value is replaced. Keys are compared only
  after they have been hashed, so \<open>py_key_eq\<close> is about hashable values.
\<close>

fun hashable :: "value \<Rightarrow> bool" where
  "hashable (PTuple vs) = list_all hashable vs"
| "hashable (PList vs) = False"
| "hashable (PDict d) = False"
| "hashable v = True"

fun py_key_eq :: "value \<Rightarrow> value \<Rightarrow> bool"
  and py_keys_eq :: "value list \<Rightarrow> value list \<Rightarrow> bool" where
  "py_key_eq PNone PNone = True"
| "py_key_eq (PStr s) (PStr t) = (s = t)"
| "py_key_eq (PInt m) (PInt n) = (m = n)"
| "py_key_eq (PInt m) (PBool c) = (m = (if c then 1 else 0))"
| "py_key_eq (PBool c) (PInt n) = ((if c then 1 else 0) = n)"
| "py_key_eq (PBool c) (PBool d) = (c = d)"
| "py_key_eq (PTuple xs) (PTuple ys) = py_keys_eq xs ys"
| "py_key_eq (PDatetime y m d) (PDatetime y' m' d') = (y = y' \<and> m = m' \<and> d = d')"
| "py_key_eq v w = False"
| "py_keys_eq [] [] = True"
| "py_keys_eq (x # xs) (y # ys) = (py_key_eq x y \<and> py_keys_eq xs ys)"
| "py_keys_eq xs ys = False"

fun dict_setitem :: "(value \<times> value) list \<Rightarrow> value \<Rightarrow> value \<Rightarrow> (value \<times> value) list" where
  "dict_setitem [] k v = [(k, v)]"
| "dict_setitem ((k', v') # d) k v =
     (if py_key_eq k' k then (k', v) # d else (k', v') # dict_setitem d k v)"

subsection \<open>The decoders that do not call the dispatcher\<close>

text \<open>
  \<open>String.parse\<close>: \<open>n = b[0]\<close> raises on the empty input; the length is then decoded
  from \<open>b\<close> itself, and the two slices take what is there.
\<close>

definition String_parse :: "bytes \<Rightarrow> string result" where
  "String_parse b =
     (case b of
        [] \<Rightarrow> Inl IndexError
      | _ # _ \<Rightarrow>
          (case Integer_parse b of
             Inl e \<Rightarrow> Inl e
           | Inr (n, remain) \<Rightarrow>
               (case bytes_decode (take n remain) of
                  Inl e \<Rightarrow> Inl e
                | Inr s \<Rightarrow> Inr (s, drop n remain))))"

text \<open>
  \<open>Enum.parse\<close>: when the first byte is none of \<open>0x29\<close>, \<open>0x2a\<close>, \<open>0x2b\<close>, no
  branch assigns \<open>remain\<close>, and the next statement reads it.
\<close>

definition Enum_val :: "string \<Rightarrow> bytes \<Rightarrow> value result" where
  "Enum_val enum remain =
     (case Integer_parse remain of
        Inl e \<Rightarrow> Inl e
      | Inr (val, remain') \<Rightarrow>
          Inr (PStr (''Enum: '' @ enum @ '', val: '' @ str_int val), remain'))"

definition Enum_parse :: "bytes \<Rightarrow> value result" where
  "Enum_parse b =
     (case b of
        [] \<Rightarrow> Inl IndexError
      | b0 # rest \<Rightarrow>
          (if b0 = 0x29 \<or> b0 = 0x2a then
             (case String_parse rest of
                Inl e \<Rightarrow> Inl e
              | Inr (enum, remain) \<Rightarrow> Enum_val enum remain)
           else if b0 = 0x2b then
             (case Integer_parse rest of
                Inl e \<Rightarrow> Inl e
              | Inr (enum, remain) \<Rightarrow> Enum_val (str_int enum) remain)
           else Inl UnboundLocalError))"

definition Color_parse :: "bytes \<Rightarrow> value result" where
  "Color_parse b = Inr (PStr ''Color: unknown'', drop 2 b)"

definition Datetime_parse :: "bytes \<Rightarrow> value result" where
  "Datetime_parse b = Inr (PDatetime 2000 1 1, drop 8 b)"

definition Unit_parse :: "bytes \<Rightarrow> value result" where
  "Unit_parse b = Inr (PStr ''Unit: '', drop 12 b)"

text \<open>
  \<open>RGBA.parse\<close>: \<open>format\<close> with four fields raises \<open>IndexError\<close> when \<open>b[:4]\<close>
  has fewer than four items.
\<close>

definition RGBA_parse :: "bytes \<Rightarrow> value result" where
  "RGBA_parse b =
     (case take 4 b of
        [c0, c1, c2, c3] \<Rightarrow>
          Inr (PStr (''RGBA('' @ str_int (unat c0) @ '','' @ str_int (unat c1) @ '','' @
                     str_int (unat c2) @ '','' @ str_int (unat c3) @ '')''), drop 4 b)
      | _ \<Rightarrow> Inl IndexError)"

fun StringArray_loop :: "nat \<Rightarrow> bytes \<Rightarrow> value list \<Rightarrow> (value list) result" where
  "StringArray_loop 0 remain l = Inr (l, remain)"
| "StringArray_loop (Suc k) remain l =
     (case remain of
        [] \<Rightarrow> Inl IndexError
      | r0 # rest \<Rightarrow>
          (if r0 = 0 then StringArray_loop k rest (l @ [PStr []])
           else
             (case String_parse remain of
                Inl e \<Rightarrow> Inl e
              | Inr (val, remain') \<Rightarrow> StringArray_loop k remain' (l @ [PStr val]))))"

definition StringArray_parse :: "bytes \<Rightarrow> value result" where
  "StringArray_parse b =
     (case Integer_parse b of
        Inl e \<Rightarrow> Inl e
      | Inr (n, remain) \<Rightarrow>
          (case StringArray_loop n remain [] of
             Inl e \<Rightarrow> Inl e
           | Inr (l, remain') \<Rightarrow> Inr (PList l, remain')))"

definition StringRef_parse :: "bytes \<Rightarrow> value result" where
  "StringRef_parse b =
     (case Integer_parse b of
        Inl e \<Rightarrow> Inl e
      | Inr (val, remain) \<Rightarrow> Inr (PStr (''Stringref #'' @ str_int val), remain))"

definition FormattedString_parse :: "bytes \<Rightarrow> value result" where
  "FormattedString_parse b =
     (case b of
        [] \<Rightarrow> Inl IndexError
      | b0 # rest \<Rightarrow>
          (if b0 = 0x29 then
             (case String_parse rest of
                Inl e \<Rightarrow> Inl e
              | Inr (s1, remain) \<Rightarrow>
                  (case String_parse remain of
                     Inl e \<Rightarrow> Inl e
                   | Inr (s2, remain') \<Rightarrow>
                       Inr (PStr (''Formatted string: '' @ s2 @ '' '' @ s1), remain')))
           else if b0 = 0x2b then
             (case Integer_parse rest of
                Inl e \<Rightarrow> Inl e
              | Inr (i, remain) \<Rightarrow>
                  (case String_parse remain of
                     Inl e \<Rightarrow> Inl e
                   | Inr (s, remain') \<Rightarrow>
                       Inr (PStr (''Formatted string: '' @ s @ '' type ref '' @ str_int i),
                            remain')))
           else Inl (ViewStateException (Unknown_formatted_string_type_marker (take 20 b)))))"

definition Type_parse :: "bytes \<Rightarrow> value result" where
  "Type_parse b =
     (case b of
        [] \<Rightarrow> Inl IndexError
      | b0 # rest \<Rightarrow>
          (if b0 = 0x29 \<or> b0 = 0x2a then
             (case String_parse rest of
                Inl e \<Rightarrow> Inl e
              | Inr (s, remain) \<Rightarrow> Inr (PStr s, remain))
           else if b0 = 0x2b then
             (case Integer_parse rest of
                Inl e \<Rightarrow> Inl e
              | Inr (n, remain) \<Rightarrow> Inr (PInt n, remain))
           else Inl (ViewStateException (Unknown_type_flag (length b) (take 20 b)))))"

subsection \<open>The registry\<close>

text \<open>
  The metaclass stores every class that has a \<open>marker\<close> under each of its markers;
  \<open>Parser\<close>, \<open>Const\<close> and \<open>Type\<close> have none.
\<close>

datatype parser_class =
    NoneConst | EmptyConst | ZeroConst | TrueConst | FalseConst
  | Integer_class | String_class | Enum_class | Color_class | Pair_class | Triplet_class
  | Datetime_class | Unit_class | RGBA_class | StringArray_class | Array_class
  | StringRef_class | FormattedString_class | SparseArray_class | Dict_class
  | TypedArray_class

definition registry :: "byte \<Rightarrow> parser_class option" where
  "registry = map_of
     [(0x64, NoneConst), (0x65, EmptyConst), (0x66, ZeroConst), (0x67, TrueConst),
      (0x68, FalseConst), (0x02, Integer_class), (0x05, String_class), (0x1e, String_class),
      (0x0b, Enum_class), (0x0a, Color_class), (0x0f, Pair_class), (0x10, Triplet_class),
      (0x06, Datetime_class), (0x1b, Unit_class), (0x09, RGBA_class),
      (0x15, StringArray_class), (0x16, Array_class), (0x1f, StringRef_class),
      (0x28, FormattedString_class), (0x3c, SparseArray_class), (0x18, Dict_class),
      (0x14, TypedArray_class)]"

subsection \<open>The dispatcher and the decoders that call it\<close>

text \<open>
  \<open>Parser.parse\<close> reads the marker with \<open>b[0]\<close>, looks the class up in the registry
  (a \<open>KeyError\<close> becomes the \<open>ViewStateException\<close> \<open>Unknown marker\<close>; no decoder
  raises a \<open>KeyError\<close> of its own) and calls its \<open>parse\<close> on \<open>b[1:]\<close>. The
  \<open>for _ in range(n)\<close> loops are the \<open>_loop\<close> functions, with the loop's variables as
  arguments: the iterations left, \<open>remain\<close>, and the list or dictionary built so far.
  \<open>l[idx] = val\<close> raises \<open>IndexError\<close> when \<open>idx\<close> is not below \<open>len(l)\<close>;
  \<open>d[k] = v\<close> raises \<open>TypeError\<close> when \<open>k\<close> is not hashable.
\<close>

function (domintros) Parser_parse :: "bytes \<Rightarrow> value result"
  and Pair_parse :: "bytes \<Rightarrow> value result"
  and Triplet_parse :: "bytes \<Rightarrow> value result"
  and Array_parse :: "bytes \<Rightarrow> value result"
  and Array_loop :: "nat \<Rightarrow> bytes \<Rightarrow> value list \<Rightarrow> (value list) result"
  and SparseArray_parse :: "bytes \<Rightarrow> value result"
  and SparseArray_loop :: "nat \<Rightarrow> bytes \<Rightarrow> value list \<Rightarrow> (value list) result"
  and Dict_parse :: "bytes \<Rightarrow> value result"
  and Dict_loop :: "nat \<Rightarrow> bytes \<Rightarrow> (value \<times> value) list \<Rightarrow> ((value \<times> value) list) result"
  and TypedArray_parse :: "bytes \<Rightarrow> value result"
  and TypedArray_loop :: "nat \<Rightarrow> bytes \<Rightarrow> value list \<Rightarrow> (value list) result"
where
  "Parser_parse b =
     (case b of
        [] \<Rightarrow> Inl IndexError
      | marker # remain \<Rightarrow>
          (case registry marker of
             None \<Rightarrow> Inl (ViewStateException (Unknown_marker marker))
           | Some cls \<Rightarrow>
               (case cls of
                  NoneConst \<Rightarrow> Inr (PNone, remain)
                | EmptyConst \<Rightarrow> Inr (PStr [], remain)
                | ZeroConst \<Rightarrow> Inr (PInt 0, remain)
                | TrueConst \<Rightarrow> Inr (PBool True, remain)
                | FalseConst \<Rightarrow> Inr (PBool False, remain)
                | Integer_class \<Rightarrow>
                    (case Integer_parse remain of
                       Inl e \<Rightarrow> Inl e
                     | Inr (n, remain') \<Rightarrow> Inr (PInt n, remain'))
                | String_class \<Rightarrow>
                    (case String_parse remain of
                       Inl e \<Rightarrow> Inl e
                     | Inr (s, remain') \<Rightarrow> Inr (PStr s, remain'))
                | Enum_class \<Rightarrow> Enum_parse remain
                | Color_class \<Rightarrow> Color_parse remain
                | Pair_class \<Rightarrow> Pair_parse remain
                | Triplet_class \<Rightarrow> Triplet_parse remain
                | Datetime_class \<Rightarrow> Datetime_parse remain
                | Unit_class \<Rightarrow> Unit_parse remain
                | RGBA_class \<Rightarrow> RGBA_parse remain
                | StringArray_class \<Rightarrow> StringArray_parse remain
                | Array_class \<Rightarrow> Array_parse remain
                | StringRef_class \<Rightarrow> StringRef_parse remain
                | FormattedString_class \<Rightarrow> FormattedString_parse remain
                | SparseArray_class \<Rightarrow> SparseArray_parse remain
                | Dict_class \<Rightarrow> Dict_parse remain
                | TypedArray_class \<Rightarrow> TypedArray_parse remain)))"
| "Pair_parse b =
     (case Parser_parse b of
        Inl e \<Rightarrow> Inl e
      | Inr (first, remain) \<Rightarrow>
          (case Parser_parse remain of
             Inl e \<Rightarrow> Inl e
           | Inr (second, remain') \<Rightarrow> Inr (PTuple [first, second], remain')))"
| "Triplet_parse b =
     (case Parser_parse b of
        Inl e \<Rightarrow> Inl e
      | Inr (first, remain) \<Rightarrow>
          (case Parser_parse remain of
             Inl e \<Rightarrow> Inl e
           | Inr (second, remain') \<Rightarrow>
               (case Parser_parse remain' of
                  Inl e \<Rightarrow> Inl e
                | Inr (third, remain'') \<Rightarrow> Inr (PTuple [first, second, third], remain''))))"
| "Array_parse b =
     (case Integer_parse b of
        Inl e \<Rightarrow> Inl e
      | Inr (n, remain) \<Rightarrow>
          (case Array_loop n remain [] of
             Inl e \<Rightarrow> Inl e
           | Inr (l, remain') \<Rightarrow> Inr (PList l, remain')))"
| "Array_loop k remain l =
     (case k of
        0 \<Rightarrow> Inr (l, remain)
      | Suc k' \<Rightarrow>
          (case Parser_parse remain of
             Inl e \<Rightarrow> Inl e
           | Inr (val, remain') \<Rightarrow> Array_loop k' remain' (l @ [val])))"
| "SparseArray_parse b =
     (case Type_parse b of
        Inl e \<Rightarrow> Inl e
      | Inr (type, remain) \<Rightarrow>
          (case Integer_parse remain of
             Inl e \<Rightarrow> Inl e
           | Inr (len, remain') \<Rightarrow>
               (case Integer_parse remain' of
                  Inl e \<Rightarrow> Inl e
                | Inr (n, remain'') \<Rightarrow>
                    (case SparseArray_loop n remain'' (replicate len PNone) of
                       Inl e \<Rightarrow> Inl e
                     | Inr (l, remain''') \<Rightarrow> Inr (PList l, remain''')))))"
| "SparseArray_loop k remain l =
     (case k of
        0 \<Rightarrow> Inr (l, remain)
      | Suc k' \<Rightarrow>
          (case Integer_parse remain of
             Inl e \<Rightarrow> Inl e
           | Inr (idx, remain') \<Rightarrow>
               (case Parser_parse remain' of
                  Inl e \<Rightarrow> Inl e
                | Inr (val, remain'') \<Rightarrow>
                    (if idx < length l then SparseArray_loop k' remain'' (l[idx := val])
                     else Inl IndexError))))"
| "Dict_parse b =
     (case b of
        [] \<Rightarrow> Inl IndexError
      | n # remain \<Rightarrow>
          (case Dict_loop (unat n) remain [] of
             Inl e \<Rightarrow> Inl e
           | Inr (d, remain') \<Rightarrow> Inr (PDict d, remain')))"
| "Dict_loop j remain d =
     (case j of
        0 \<Rightarrow> Inr (d, remain)
      | Suc j' \<Rightarrow>
          (case Parser_parse remain of
             Inl e \<Rightarrow> Inl e
           | Inr (k, remain') \<Rightarrow>
               (case Parser_parse remain' of
                  Inl e \<Rightarrow> Inl e
                | Inr (v, remain'') \<Rightarrow>
                    (if hashable k then Dict_loop j' remain'' (dict_setitem d k v)
                     else Inl TypeError))))"
| "TypedArray_parse b =
     (case Type_parse b of
        Inl e \<Rightarrow> Inl e
      | Inr (typeval, remain) \<Rightarrow>
          (case Integer_parse remain of
             Inl e \<Rightarrow> Inl e
           | Inr (n, remain') \<Rightarrow>
               (case TypedArray_loop n remain' [] of
                  Inl e \<Rightarrow> Inl e
                | Inr (l, remain'') \<Rightarrow> Inr (PList l, remain''))))"
| "TypedArray_loop k remain l =
     (case k of
        0 \<Rightarrow> Inr (l, remain)
      | Suc k' \<Rightarrow>
          (case Parser_parse remain of
             Inl e \<Rightarrow> Inl e
           | Inr (val, remain') \<Rightarrow> TypedArray_loop k' remain' (l @ [val])))"
  by pat_completeness auto



abbreviation parse_dom where
  "parse_dom \<equiv> Parser_parse_Pair_parse_Triplet_parse_Array_parse_Array_loop_SparseArray_parse_SparseArray_loop_Dict_parse_Dict_loop_TypedArray_parse_TypedArray_loop_dom"

lemmas parse_pinduct = Parser_parse_Pair_parse_Triplet_parse_Array_parse_Array_loop_SparseArray_parse_SparseArray_loop_Dict_parse_Dict_loop_TypedArray_parse_TypedArray_loop.pinduct

subsection \<open>Every decoder returns a suffix of its input, and the dispatcher terminates\<close>

lemma strict_suffix_ConsI: "suffix r b \<Longrightarrow> strict_suffix r (x # b)"
  by (auto simp: strict_suffix_def suffix_ConsI dest: suffix_length_le)

lemmas suffix_trans = suffix_order.trans
lemmas strict_suffixD = suffix_order.less_imp_le

lemma Integer_loop_drop:
  "k = i + j \<Longrightarrow> Integer_loop b n bits k = Integer_loop (drop i b) n bits j"
proof (induction b n bits k arbitrary: i j rule: Integer_loop.induct)
  case (1 b n bits k)
  show ?case
  proof (cases "bits < 32 \<and> k < length b \<and> b ! k AND 0x80 \<noteq> 0")
    case True
    then have "Integer_loop b (n OR push_bit bits (unat (b ! k AND 0x7f))) (bits + 7) (k + 1)
      = Integer_loop (drop i b) (n OR push_bit bits (unat (b ! k AND 0x7f))) (bits + 7) (j + 1)"
      using 1 by (intro "1.IH") auto
    moreover have "j < length b - i" using True 1(2) by arith
    ultimately show ?thesis using True 1(2)
      by (subst Integer_loop.simps, subst (2) Integer_loop.simps) (simp add: Let_def add.commute)
  next
    case False
    with 1(2) show ?thesis
      by (subst Integer_loop.simps, subst (2) Integer_loop.simps) (auto simp: Let_def add.commute)
  qed
qed

lemma Integer_loop_Nil:
  "Integer_loop [] n bits 0 = (if bits < 32 then Inl IndexError else Inr (n, []))"
  by (subst Integer_loop.simps) simp

lemma Integer_loop_Cons:
  "Integer_loop (t # b) n bits 0 =
     (if bits < 32 then
        (if t AND 0x80 = 0 then Inr (n OR push_bit bits (unat (t AND 0x7f)), b)
         else Integer_loop b (n OR push_bit bits (unat (t AND 0x7f))) (bits + 7) 0)
      else Inr (n, t # b))"
  by (subst Integer_loop.simps) (simp add: Let_def Integer_loop_drop [of 1 1 0 "t # b", simplified])

lemma Integer_loop_suffix:
  "Integer_loop b n bits 0 = Inr (v, r) \<Longrightarrow> suffix r b"
proof (induction b arbitrary: n bits)
  case Nil
  then show ?case by (simp add: Integer_loop_Nil split: if_splits)
next
  case (Cons t b)
  then show ?case
    by (auto simp: Integer_loop_Cons suffix_ConsI split: if_splits)
qed

lemma Integer_parse_suffix:
  "Integer_parse b = Inr (v, r) \<Longrightarrow> strict_suffix r b"
proof (cases b)
  case Nil
  assume "Integer_parse b = Inr (v, r)"
  with Nil show ?thesis by (simp add: Integer_parse_def Integer_loop_Nil)
next
  case (Cons t b')
  assume "Integer_parse b = Inr (v, r)"
  with Cons have "suffix r b'"
    by (auto simp: Integer_parse_def Integer_loop_Cons split: if_splits dest: Integer_loop_suffix)
  with Cons show ?thesis by (simp add: strict_suffix_ConsI)
qed

lemma String_parse_suffix:
  "String_parse b = Inr (v, r) \<Longrightarrow> strict_suffix r b"
  by (auto simp: String_parse_def split: list.splits sum.splits
      dest!: Integer_parse_suffix intro: suffix_order.le_less_trans [OF suffix_drop])

lemma Enum_parse_suffix:
  "Enum_parse b = Inr (v, r) \<Longrightarrow> suffix r b"
  by (auto simp: Enum_parse_def Enum_val_def split: list.splits sum.splits if_splits
      dest!: Integer_parse_suffix String_parse_suffix
      intro!: suffix_ConsI intro: suffix_order.trans suffix_order.less_imp_le)

lemma StringArray_loop_suffix:
  "StringArray_loop k remain l = Inr (v, r) \<Longrightarrow> suffix r remain"
proof (induction k arbitrary: remain l)
  case 0
  then show ?case by simp
next
  case (Suc k)
  from Suc.prems obtain r0 rest where remain: "remain = r0 # rest"
    by (cases remain) auto
  show ?case
  proof (cases "r0 = 0")
    case True
    with Suc.prems remain have "StringArray_loop k rest (l @ [PStr []]) = Inr (v, r)" by simp
    then have "suffix r rest" by (rule Suc.IH)
    with remain show ?thesis by (simp add: suffix_ConsI)
  next
    case False
    with Suc.prems remain obtain val remain' where
      s: "String_parse remain = Inr (val, remain')" and
      l: "StringArray_loop k remain' (l @ [PStr val]) = Inr (v, r)"
      by (auto split: sum.splits)
    from l have "suffix r remain'" by (rule Suc.IH)
    moreover from s have "suffix remain' remain"
      by (blast dest: String_parse_suffix suffix_order.less_imp_le)
    ultimately show ?thesis by (rule suffix_order.trans)
  qed
qed

lemma StringArray_parse_suffix:
  "StringArray_parse b = Inr (v, r) \<Longrightarrow> suffix r b"
  by (auto simp: StringArray_parse_def split: sum.splits
      dest!: Integer_parse_suffix StringArray_loop_suffix
      intro: suffix_order.trans suffix_order.less_imp_le)

lemma StringRef_parse_suffix:
  "StringRef_parse b = Inr (v, r) \<Longrightarrow> suffix r b"
  by (auto simp: StringRef_parse_def split: sum.splits
      dest!: Integer_parse_suffix intro: suffix_order.less_imp_le)

lemma FormattedString_parse_suffix:
  "FormattedString_parse b = Inr (v, r) \<Longrightarrow> suffix r b"
  by (auto simp: FormattedString_parse_def split: list.splits sum.splits if_splits
      dest!: Integer_parse_suffix String_parse_suffix
      intro!: suffix_ConsI intro: suffix_order.trans suffix_order.less_imp_le)

lemma Type_parse_suffix:
  "Type_parse b = Inr (v, r) \<Longrightarrow> strict_suffix r b"
  by (auto simp: Type_parse_def split: list.splits sum.splits if_splits
      dest!: Integer_parse_suffix String_parse_suffix
      intro!: strict_suffix_ConsI intro: suffix_order.less_imp_le)

lemma RGBA_parse_suffix:
  "RGBA_parse b = Inr (v, r) \<Longrightarrow> suffix r b"
  by (auto simp: RGBA_parse_def suffix_drop split: list.splits)


lemma parse_dom_suffix:
  "parse_dom (Inl (Inl (Inl b1))) \<Longrightarrow>
     \<forall>v r. Parser_parse b1 = Inr (v, r) \<longrightarrow> strict_suffix r b1"
  "parse_dom (Inl (Inl (Inr b2))) \<Longrightarrow>
     \<forall>v r. Pair_parse b2 = Inr (v, r) \<longrightarrow> suffix r b2"
  "parse_dom (Inl (Inr (Inl b3))) \<Longrightarrow>
     \<forall>v r. Triplet_parse b3 = Inr (v, r) \<longrightarrow> suffix r b3"
  "parse_dom (Inl (Inr (Inr (Inl b4)))) \<Longrightarrow>
     \<forall>v r. Array_parse b4 = Inr (v, r) \<longrightarrow> suffix r b4"
  "parse_dom (Inl (Inr (Inr (Inr (k5, b5, l5))))) \<Longrightarrow>
     \<forall>v r. Array_loop k5 b5 l5 = Inr (v, r) \<longrightarrow> suffix r b5"
  "parse_dom (Inr (Inl (Inl b6))) \<Longrightarrow>
     \<forall>v r. SparseArray_parse b6 = Inr (v, r) \<longrightarrow> suffix r b6"
  "parse_dom (Inr (Inl (Inr (Inl (k7, b7, l7))))) \<Longrightarrow>
     \<forall>v r. SparseArray_loop k7 b7 l7 = Inr (v, r) \<longrightarrow> suffix r b7"
  "parse_dom (Inr (Inl (Inr (Inr b8)))) \<Longrightarrow>
     \<forall>v r. Dict_parse b8 = Inr (v, r) \<longrightarrow> suffix r b8"
  "parse_dom (Inr (Inr (Inl (k9, b9, d9)))) \<Longrightarrow>
     \<forall>v r. Dict_loop k9 b9 d9 = Inr (v, r) \<longrightarrow> suffix r b9"
  "parse_dom (Inr (Inr (Inr (Inl b10)))) \<Longrightarrow>
     \<forall>v r. TypedArray_parse b10 = Inr (v, r) \<longrightarrow> suffix r b10"
  "parse_dom (Inr (Inr (Inr (Inr (k11, b11, l11))))) \<Longrightarrow>
     \<forall>v r. TypedArray_loop k11 b11 l11 = Inr (v, r) \<longrightarrow> suffix r b11"
proof (induction rule: parse_pinduct)
  case (1 b)
  show ?case
  proof (intro allI impI)
    fix v r
    assume res: "Parser_parse b = Inr (v, r)"
    with "1.hyps" obtain m remain cls where
      b: "b = m # remain" and reg: "registry m = Some cls"
      by (auto simp: Parser_parse.psimps split: list.splits option.splits)
    have "suffix r remain"
    proof (cases cls)
      case Pair_class
      with res b reg "1.hyps" "1.IH"(1) show ?thesis by (simp add: Parser_parse.psimps)
    next
      case Triplet_class
      with res b reg "1.hyps" "1.IH"(2) show ?thesis by (simp add: Parser_parse.psimps)
    next
      case Array_class
      with res b reg "1.hyps" "1.IH"(3) show ?thesis by (simp add: Parser_parse.psimps)
    next
      case SparseArray_class
      with res b reg "1.hyps" "1.IH"(4) show ?thesis by (simp add: Parser_parse.psimps)
    next
      case Dict_class
      with res b reg "1.hyps" "1.IH"(5) show ?thesis by (simp add: Parser_parse.psimps)
    next
      case TypedArray_class
      with res b reg "1.hyps" "1.IH"(6) show ?thesis by (simp add: Parser_parse.psimps)
    next
      case Integer_class
      with res b reg "1.hyps" show ?thesis
        by (auto simp: Parser_parse.psimps split: sum.splits
            dest!: Integer_parse_suffix intro: strict_suffixD)
    next
      case String_class
      with res b reg "1.hyps" show ?thesis
        by (auto simp: Parser_parse.psimps split: sum.splits
            dest!: String_parse_suffix intro: strict_suffixD)
    qed (use res b reg "1.hyps" in \<open>auto simp: Parser_parse.psimps Color_parse_def
          Datetime_parse_def Unit_parse_def suffix_drop
          dest: Enum_parse_suffix RGBA_parse_suffix StringArray_parse_suffix
            StringRef_parse_suffix FormattedString_parse_suffix\<close>)
    with b show "strict_suffix r b" by (simp add: strict_suffix_ConsI)
  qed
next
  case (2 b)
  show ?case
  proof (intro allI impI)
    fix v r
    assume res: "Pair_parse b = Inr (v, r)"
    with "2.hyps" obtain v1 r1 v2 where
      p1: "Parser_parse b = Inr (v1, r1)" and p2: "Parser_parse r1 = Inr (v2, r)"
      by (auto simp: Pair_parse.psimps split: sum.splits)
    from p1 "2.IH"(1) have "suffix r1 b" by (blast intro: strict_suffixD)
    moreover from p1 p2 "2.IH"(2) have "suffix r r1" by (blast intro: strict_suffixD)
    ultimately show "suffix r b" by (blast intro: suffix_trans)
  qed
next
  case (3 b)
  show ?case
  proof (intro allI impI)
    fix v r
    assume res: "Triplet_parse b = Inr (v, r)"
    with "3.hyps" obtain v1 r1 v2 r2 v3 where
      p1: "Parser_parse b = Inr (v1, r1)" and p2: "Parser_parse r1 = Inr (v2, r2)"
      and p3: "Parser_parse r2 = Inr (v3, r)"
      by (auto simp: Triplet_parse.psimps split: sum.splits)
    from p1 "3.IH"(1) have "suffix r1 b" by (blast intro: strict_suffixD)
    moreover from p1 p2 "3.IH"(2) have "suffix r2 r1" by (blast intro: strict_suffixD)
    moreover from p1 p2 p3 "3.IH"(3) have "suffix r r2" by (blast intro: strict_suffixD)
    ultimately show "suffix r b" by (blast intro: suffix_trans)
  qed
next
  case (4 b)
  show ?case
  proof (intro allI impI)
    fix v r
    assume res: "Array_parse b = Inr (v, r)"
    with "4.hyps" obtain n r1 l where
      p1: "Integer_parse b = Inr (n, r1)" and p2: "Array_loop n r1 [] = Inr (l, r)"
      by (auto simp: Array_parse.psimps split: sum.splits)
    from p1 have "suffix r1 b" by (blast dest: Integer_parse_suffix intro: strict_suffixD)
    moreover from p1 p2 "4.IH" have "suffix r r1" by blast
    ultimately show "suffix r b" by (blast intro: suffix_trans)
  qed
next
  case (5 k remain l)
  show ?case
  proof (intro allI impI)
    fix v r
    assume res: "Array_loop k remain l = Inr (v, r)"
    show "suffix r remain"
    proof (cases k)
      case 0
      with res "5.hyps" show ?thesis by (simp add: Array_loop.psimps)
    next
      case (Suc k')
      with res "5.hyps" obtain val r1 where
        p1: "Parser_parse remain = Inr (val, r1)" and
        p2: "Array_loop k' r1 (l @ [val]) = Inr (v, r)"
        by (auto simp: Array_loop.psimps split: sum.splits)
      from Suc p1 "5.IH"(1) have "suffix r1 remain" by (blast intro: strict_suffixD)
      moreover from Suc p1 p2 "5.IH"(2) have "suffix r r1" by blast
      ultimately show ?thesis by (blast intro: suffix_trans)
    qed
  qed
next
  case (6 b)
  show ?case
  proof (intro allI impI)
    fix v r
    assume res: "SparseArray_parse b = Inr (v, r)"
    with "6.hyps" obtain ty r1 len r2 n r3 l where
      p1: "Type_parse b = Inr (ty, r1)" and p2: "Integer_parse r1 = Inr (len, r2)" and
      p3: "Integer_parse r2 = Inr (n, r3)" and
      p4: "SparseArray_loop n r3 (replicate len PNone) = Inr (l, r)"
      by (auto simp: SparseArray_parse.psimps split: sum.splits)
    from p1 have "suffix r1 b" by (blast dest: Type_parse_suffix intro: strict_suffixD)
    moreover from p2 have "suffix r2 r1" by (blast dest: Integer_parse_suffix intro: strict_suffixD)
    moreover from p3 have "suffix r3 r2" by (blast dest: Integer_parse_suffix intro: strict_suffixD)
    moreover from p1 p2 p3 p4 "6.IH" have "suffix r r3" by blast
    ultimately show "suffix r b" by (blast intro: suffix_trans)
  qed
next
  case (7 k remain l)
  show ?case
  proof (intro allI impI)
    fix v r
    assume res: "SparseArray_loop k remain l = Inr (v, r)"
    show "suffix r remain"
    proof (cases k)
      case 0
      with res "7.hyps" show ?thesis by (simp add: SparseArray_loop.psimps)
    next
      case (Suc k')
      with res "7.hyps" obtain idx r1 val r2 where
        p1: "Integer_parse remain = Inr (idx, r1)" and
        p2: "Parser_parse r1 = Inr (val, r2)" and
        p3: "idx < length l" and
        p4: "SparseArray_loop k' r2 (l[idx := val]) = Inr (v, r)"
        by (auto simp: SparseArray_loop.psimps split: sum.splits if_splits)
      from p1 have "suffix r1 remain" by (blast dest: Integer_parse_suffix intro: strict_suffixD)
      moreover from Suc p1 p2 "7.IH"(1) have "suffix r2 r1" by (blast intro: strict_suffixD)
      moreover from Suc p1 p2 p3 p4 "7.IH"(2) have "suffix r r2" by blast
      ultimately show ?thesis by (blast intro: suffix_trans)
    qed
  qed
next
  case (8 b)
  show ?case
  proof (intro allI impI)
    fix v r
    assume res: "Dict_parse b = Inr (v, r)"
    with "8.hyps" obtain n remain d where
      b: "b = n # remain" and p: "Dict_loop (unat n) remain [] = Inr (d, r)"
      by (auto simp: Dict_parse.psimps split: list.splits sum.splits)
    from b p "8.IH" have "suffix r remain" by blast
    with b show "suffix r b" by (simp add: suffix_ConsI)
  qed
next
  case (9 j remain d)
  show ?case
  proof (intro allI impI)
    fix v r
    assume res: "Dict_loop j remain d = Inr (v, r)"
    show "suffix r remain"
    proof (cases j)
      case 0
      with res "9.hyps" show ?thesis by (simp add: Dict_loop.psimps)
    next
      case (Suc j')
      with res "9.hyps" obtain key r1 val r2 where
        p1: "Parser_parse remain = Inr (key, r1)" and
        p2: "Parser_parse r1 = Inr (val, r2)" and
        p3: "hashable key" and
        p4: "Dict_loop j' r2 (dict_setitem d key val) = Inr (v, r)"
        by (auto simp: Dict_loop.psimps split: sum.splits if_splits)
      from Suc p1 "9.IH"(1) have "suffix r1 remain" by (blast intro: strict_suffixD)
      moreover from Suc p1 p2 "9.IH"(2) have "suffix r2 r1" by (blast intro: strict_suffixD)
      moreover from Suc p1 p2 p3 p4 "9.IH"(3) have "suffix r r2" by blast
      ultimately show ?thesis by (blast intro: suffix_trans)
    qed
  qed
next
  case (10 b)
  show ?case
  proof (intro allI impI)
    fix v r
    assume res: "TypedArray_parse b = Inr (v, r)"
    with "10.hyps" obtain ty r1 n r2 l where
      p1: "Type_parse b = Inr (ty, r1)" and p2: "Integer_parse r1 = Inr (n, r2)" and
      p3: "TypedArray_loop n r2 [] = Inr (l, r)"
      by (auto simp: TypedArray_parse.psimps split: sum.splits)
    from p1 have "suffix r1 b" by (blast dest: Type_parse_suffix intro: strict_suffixD)
    moreover from p2 have "suffix r2 r1" by (blast dest: Integer_parse_suffix intro: strict_suffixD)
    moreover from p1 p2 p3 "10.IH" have "suffix r r2" by blast
    ultimately show "suffix r b" by (blast intro: suffix_trans)
  qed
next
  case (11 k remain l)
  show ?case
  proof (intro allI impI)
    fix v r
    assume res: "TypedArray_loop k remain l = Inr (v, r)"
    show "suffix r remain"
    proof (cases k)
      case 0
      with res "11.hyps" show ?thesis by (simp add: TypedArray_loop.psimps)
    next
      case (Suc k')
      with res "11.hyps" obtain val r1 where
        p1: "Parser_parse remain = Inr (val, r1)" and
        p2: "TypedArray_loop k' r1 (l @ [val]) = Inr (v, r)"
        by (auto simp: TypedArray_loop.psimps split: sum.splits)
      from Suc p1 "11.IH"(1) have "suffix r1 remain" by (blast intro: strict_suffixD)
      moreover from Suc p1 p2 "11.IH"(2) have "suffix r r1" by blast
      ultimately show ?thesis by (blast intro: suffix_trans)
    qed
  qed
qed


lemma Integer_parse_length: "Integer_parse b = Inr (v, r) \<Longrightarrow> length r < length b"
  by (blast dest: Integer_parse_suffix suffix_length_less)

lemma Type_parse_length: "Type_parse b = Inr (v, r) \<Longrightarrow> length r < length b"
  by (blast dest: Type_parse_suffix suffix_length_less)

lemma Parser_parse_dom_length:
  "parse_dom (Inl (Inl (Inl b))) \<Longrightarrow> Parser_parse b = Inr (v, r) \<Longrightarrow> length r < length b"
  by (blast dest: parse_dom_suffix(1) suffix_length_less)

termination Parser_parse
  by (relation "measure (\<lambda>x. case x of
    Inl (Inl (Inl b)) \<Rightarrow> 3 * length b
  | Inl (Inl (Inr b)) \<Rightarrow> 3 * length b + 2
  | Inl (Inr (Inl b)) \<Rightarrow> 3 * length b + 2
  | Inl (Inr (Inr (Inl b))) \<Rightarrow> 3 * length b + 2
  | Inl (Inr (Inr (Inr (k, remain, l)))) \<Rightarrow> 3 * length remain + 1
  | Inr (Inl (Inl b)) \<Rightarrow> 3 * length b + 2
  | Inr (Inl (Inr (Inl (k, remain, l)))) \<Rightarrow> 3 * length remain + 1
  | Inr (Inl (Inr (Inr b))) \<Rightarrow> 3 * length b + 2
  | Inr (Inr (Inl (j, remain, d))) \<Rightarrow> 3 * length remain + 1
  | Inr (Inr (Inr (Inl b))) \<Rightarrow> 3 * length b + 2
  | Inr (Inr (Inr (Inr (k, remain, l)))) \<Rightarrow> 3 * length remain + 1)")
     (auto dest!: Integer_parse_length Type_parse_length Parser_parse_dom_length)


lemmas parse_induct = Parser_parse_Pair_parse_Triplet_parse_Array_parse_Array_loop_SparseArray_parse_SparseArray_loop_Dict_parse_Dict_loop_TypedArray_parse_TypedArray_loop.induct
lemmas parse_domintros = Parser_parse_Pair_parse_Triplet_parse_Array_parse_Array_loop_SparseArray_parse_SparseArray_loop_Dict_parse_Dict_loop_TypedArray_parse_TypedArray_loop.domintros

declare Parser_parse.simps [simp del] Pair_parse.simps [simp del] Triplet_parse.simps [simp del]
  Array_parse.simps [simp del] Array_loop.simps [simp del] SparseArray_parse.simps [simp del]
  SparseArray_loop.simps [simp del] Dict_parse.simps [simp del] Dict_loop.simps [simp del]
  TypedArray_parse.simps [simp del] TypedArray_loop.simps [simp del]

lemma parse_total:
  "parse_dom (Inl (Inl (Inl b1)))"
  "parse_dom (Inl (Inl (Inr b2)))"
  "parse_dom (Inl (Inr (Inl b3)))"
  "parse_dom (Inl (Inr (Inr (Inl b4))))"
  "parse_dom (Inl (Inr (Inr (Inr (k5, b5, l5)))))"
  "parse_dom (Inr (Inl (Inl b6)))"
  "parse_dom (Inr (Inl (Inr (Inl (k7, b7, l7)))))"
  "parse_dom (Inr (Inl (Inr (Inr b8))))"
  "parse_dom (Inr (Inr (Inl (k9, b9, d9))))"
  "parse_dom (Inr (Inr (Inr (Inl b10))))"
  "parse_dom (Inr (Inr (Inr (Inr (k11, b11, l11)))))"
  by (induct b1 and b2 and b3 and b4 and k5 b5 l5 and b6 and k7 b7 l7 and b8 and k9 b9 d9
        and b10 and k11 b11 l11 rule: parse_induct)
     (auto intro: parse_domintros)

lemma Parser_parse_suffix: "Parser_parse b = Inr (v, r) \<Longrightarrow> strict_suffix r b"
  using parse_dom_suffix(1) [OF parse_total(1)] by blast

section \<open>The varint\<close>

text \<open>
  The repository has no encoder (the write path is a non-goal of the spec), so the
  encoding is taken from the spec's words, to compare \<open>Integer.parse\<close> with.
  \<open>encode_varint\<close> is the canonical encoding the spec describes: seven bits per byte,
  least significant group first, the continuation bit (128) on every byte but the last.
  \<open>varint_value\<close> is the value the spec gives to a sequence of bytes: the low seven bits
  of each byte at the bit offsets 0, 7, 14, ...
\<close>

fun encode_varint :: "nat \<Rightarrow> bytes" where
  "encode_varint v =
     (if v < 128 then [word_of_nat v]
      else word_of_nat (128 + v mod 128) # encode_varint (v div 128))"

declare encode_varint.simps [simp del]

fun varint_value :: "bytes \<Rightarrow> nat" where
  "varint_value [] = 0"
| "varint_value (t # ts) = unat (t AND 0x7f) + 128 * varint_value ts"

subsection \<open>Bytes and bits\<close>

lemma byte_low7: "unat ((t::byte) AND 0x7f) = unat t mod 128"
proof -
  have "(0x7f::byte) = mask 7" by (simp add: mask_eq_exp_minus_1)
  then have "t AND 0x7f = take_bit 7 t" by (simp add: take_bit_eq_mask)
  moreover have "unat (take_bit 7 t) = take_bit 7 (unat t)" by (rule unsigned_take_bit_eq)
  ultimately show ?thesis by (simp add: take_bit_eq_mod)
qed

lemma byte_high: "((t::byte) AND 0x80 = 0) = (unat t < 128)"
proof -
  have lt: "unat t < 256" using unsigned_less [of t] by simp
  have "(t AND 0x80 = 0) = (t AND 2 ^ 7 = 0)" by simp
  also have "\<dots> = (\<not> bit t 7)" by (rule and_exp_eq_0_iff_not_bit)
  also have "\<dots> = (\<not> bit (unat t) 7)" by (simp add: bit_unsigned_iff)
  also have "\<dots> = (\<not> odd (unat t div 128))" by (simp add: bit_iff_odd)
  also have "\<dots> = (unat t < 128)"
  proof (cases "unat t < 128")
    case True then show ?thesis by simp
  next
    case False
    with lt have "unat t div 128 = 1" by (intro div_nat_eqI) auto
    with False show ?thesis by simp
  qed
  finally show ?thesis .
qed

lemma split7: "(a::nat) < 128 \<Longrightarrow> a OR push_bit 7 x = a + 128 * x"
proof -
  assume a: "a < 128"
  have "a + push_bit 7 x = a OR push_bit 7 x"
  proof (rule disjunctive_add)
    fix n
    have "take_bit 7 a = a" using a by (simp add: take_bit_nat_eq_self)
    then have "bit a n \<Longrightarrow> n < 7" by (metis bit_take_bit_iff)
    then show "\<not> bit a n \<or> \<not> bit (push_bit 7 x) n" by (auto simp: bit_push_bit_iff)
  qed
  then show ?thesis by (simp add: push_bit_eq_mult)
qed

lemma accumulate:
  "a < 128 \<Longrightarrow>
   ((n::nat) OR push_bit bits a) OR push_bit (bits + 7) x = n OR push_bit bits (a + 128 * x)"
proof -
  assume "a < 128"
  then have "a + 128 * x = a OR push_bit 7 x" by (simp add: split7)
  moreover have "push_bit (bits + 7) x = push_bit bits (push_bit 7 x)"
    by (simp add: push_bit_eq_mult power_add)
  ultimately show ?thesis by (simp add: push_bit_or or.assoc)
qed

lemma low7_less: "unat ((t::byte) AND 0x7f) < 128"
  by (simp add: byte_low7)

lemma Integer_loop_done: "\<not> bits < 32 \<Longrightarrow> Integer_loop b n bits 0 = Inr (n, b)"
  by (subst Integer_loop.simps) simp

lemma unat_low_byte: "v < 128 \<Longrightarrow> unat (word_of_nat v :: byte) = v"
  by (simp add: unat_of_nat)

lemma unat_cont_byte: "unat (word_of_nat (128 + v mod 128) :: byte) = 128 + v mod 128"
proof -
  have "unat (word_of_nat (128 + v mod 128) :: byte) = (128 + v mod 128) mod 2 ^ LENGTH(8)"
    by (rule unat_of_nat)
  also have "\<dots> = 128 + v mod 128" by simp
  finally show ?thesis .
qed

lemma unat_cont_byte': "unat (128 + word_of_nat (v mod 128) :: byte) = 128 + v mod 128"
  using unat_cont_byte [of v] by simp

lemma Integer_loop_encode:
  "bits < 32 \<Longrightarrow> v < 2 ^ (32 - bits) \<Longrightarrow>
   Integer_loop (encode_varint v @ rest) n bits 0 = Inr (n OR push_bit bits v, rest)"
proof (induction v arbitrary: n bits rule: encode_varint.induct)
  case (1 v)
  show ?case
  proof (cases "v < 128")
    case True
    with "1.prems" show ?thesis
      by (simp add: encode_varint.simps [of v] Integer_loop_Cons byte_high byte_low7 unat_low_byte)
  next
    case False
    have "(2::nat) ^ 7 \<le> v" using False by simp
    also have "v < 2 ^ (32 - bits)" by fact
    finally have "(2::nat) ^ 7 < 2 ^ (32 - bits)" .
    then have "7 < 32 - bits" by (rule power_less_imp_less_exp [rotated]) simp
    then have b7: "bits + 7 < 32" by simp
    have "32 - bits = 7 + (32 - (bits + 7))" using b7 by simp
    then have "(2::nat) ^ (32 - bits) = 2 ^ 7 * 2 ^ (32 - (bits + 7))"
      by (simp only: power_add)
    with "1.prems"(2) have "v < 2 ^ 7 * 2 ^ (32 - (bits + 7))" by simp
    then have small: "v div 128 < 2 ^ (32 - (bits + 7))"
      by (simp add: less_mult_imp_div_less mult.commute)
    have "Integer_loop (encode_varint (v div 128) @ rest)
            (n OR push_bit bits (v mod 128)) (bits + 7) 0
          = Inr ((n OR push_bit bits (v mod 128)) OR push_bit (bits + 7) (v div 128), rest)"
      using False b7 small by (rule "1.IH")
    moreover have "(n OR push_bit bits (v mod 128)) OR push_bit (bits + 7) (v div 128)
                   = n OR push_bit bits v"
      by (simp add: accumulate)
    ultimately show ?thesis
      using False "1.prems"(1)
      by (simp add: encode_varint.simps [of v] Integer_loop_Cons byte_high byte_low7 unat_cont_byte')
  qed
qed

lemma varint_roundtrip_gen: "v < 2 ^ 32 \<Longrightarrow> Integer_parse (encode_varint v) = Inr (v, [])"
  using Integer_loop_encode [of 0 v "[]" 0] by (simp add: Integer_parse_def)


subsection \<open>Round trip\<close>

text \<open>
  C3. For every \<open>v < 2^28\<close>, decoding the canonical encoding of \<open>v\<close> returns \<open>v\<close>
  and the empty remainder; the bytes \<open>8c 02\<close> decode to 268.
\<close>

theorem varint_roundtrip:
  "(v < 2 ^ 28 \<longrightarrow> Integer_parse (encode_varint v) = Inr (v, [])) \<and>
   Integer_parse [0x8c, 0x02] = Inr (268, [])"
proof
  show "v < 2 ^ 28 \<longrightarrow> Integer_parse (encode_varint v) = Inr (v, [])"
  proof
    assume "v < 2 ^ 28"
    also have "(2::nat) ^ 28 < 2 ^ 32" by simp
    finally show "Integer_parse (encode_varint v) = Inr (v, [])"
      by (rule varint_roundtrip_gen)
  qed
  show "Integer_parse [0x8c, 0x02] = Inr (268, [])"
    by (simp add: Integer_parse_def Integer_loop_Cons)
qed

theorem varint_roundtrip_witness:
  "(268::nat) < 2 ^ 28 \<and> encode_varint 268 = [0x8c, 0x02] \<and>
   Integer_parse (encode_varint 268) = Inr (268, [])"
  using varint_roundtrip [of 268] by (simp add: encode_varint.simps)

subsection \<open>Where decoding stops\<close>

lemma varint_value_less: "varint_value c < 128 ^ length c"
proof (induction c)
  case Nil
  show ?case by simp
next
  case (Cons t c)
  have "unat (t AND 0x7f) < 128" by (rule low7_less)
  moreover from Cons have "varint_value c + 1 \<le> 128 ^ length c" by simp
  then have "128 * (varint_value c + 1) \<le> 128 * 128 ^ length c" by (rule mult_le_mono2)
  ultimately show ?case by simp
qed

lemma Integer_loop_consumed:
  "bits < 32 \<Longrightarrow> Integer_loop b n bits 0 = Inr (v, r) \<Longrightarrow>
   \<exists>c. b = c @ r \<and> c \<noteq> [] \<and> length c \<le> (38 - bits) div 7 \<and>
       (\<forall>t\<in>set (butlast c). t AND 0x80 \<noteq> 0) \<and>
       (last c AND 0x80 = 0 \<or> length c = (38 - bits) div 7) \<and>
       v = n OR push_bit bits (varint_value c)"
proof (induction b arbitrary: n bits)
  case Nil
  then show ?case by (simp add: Integer_loop_Nil)
next
  case (Cons t b)
  let ?n' = "n OR push_bit bits (unat (t AND 0x7f))"
  have one: "1 \<le> (38 - bits) div 7" using Cons.prems(1) by arith
  show ?case
  proof (cases "t AND 0x80 = 0")
    case True
    with Cons.prems have "v = ?n'" "r = b" by (simp_all add: Integer_loop_Cons)
    with True one show ?thesis by (intro exI [of _ "[t]"]) simp
  next
    case False
    with Cons.prems have rec: "Integer_loop b ?n' (bits + 7) 0 = Inr (v, r)"
      by (simp add: Integer_loop_Cons)
    show ?thesis
    proof (cases "bits + 7 < 32")
      case True
      from Cons.IH [OF True rec] obtain c where
        c: "b = c @ r" "c \<noteq> []" "length c \<le> (38 - (bits + 7)) div 7"
           "\<forall>t\<in>set (butlast c). t AND 0x80 \<noteq> 0"
           "last c AND 0x80 = 0 \<or> length c = (38 - (bits + 7)) div 7"
           "v = ?n' OR push_bit (bits + 7) (varint_value c)"
        by blast
      have step: "Suc ((38 - (bits + 7)) div 7) = (38 - bits) div 7" using True by arith
      have "v = n OR push_bit bits (varint_value (t # c))"
        using c(6) by (simp add: accumulate low7_less)
      with c False step show ?thesis
        by (intro exI [of _ "t # c"]) auto
    next
      case big: False
      with rec have "v = ?n'" "r = b" by (simp_all add: Integer_loop_done)
      moreover have "(38 - bits) div 7 = 1" using big Cons.prems(1) by arith
      ultimately show ?thesis by (intro exI [of _ "[t]"]) simp
    qed
  qed
qed

lemma Integer_loop_fails:
  "Integer_loop b n bits 0 = Inl e \<Longrightarrow>
   e = IndexError \<and> length b < (38 - bits) div 7 \<and> (\<forall>t\<in>set b. t AND 0x80 \<noteq> 0)"
proof (induction b arbitrary: n bits)
  case Nil
  then have "bits < 32" "e = IndexError" by (auto simp: Integer_loop_Nil split: if_splits)
  moreover from this have "1 \<le> (38 - bits) div 7" by arith
  ultimately show ?case by simp
next
  case (Cons t b)
  let ?n' = "n OR push_bit bits (unat (t AND 0x7f))"
  from Cons.prems have lt: "bits < 32" and hi: "t AND 0x80 \<noteq> 0"
    and rec: "Integer_loop b ?n' (bits + 7) 0 = Inl e"
    by (auto simp: Integer_loop_Cons split: if_splits)
  from Cons.IH [OF rec] have
    ih: "e = IndexError" "length b < (38 - (bits + 7)) div 7" "\<forall>t\<in>set b. t AND 0x80 \<noteq> 0"
    by auto
  have "Suc ((38 - (bits + 7)) div 7) \<le> (38 - bits) div 7" using lt by arith
  with ih hi show ?case by auto
qed

text \<open>
  C4, as the code has it. \<open>Integer.parse\<close> returns exactly when the bytes it has read
  are \<open>c\<close>: at most five, every byte but the last with the high bit set, and the last
  either with the high bit clear or the fifth. The value is that of \<open>c\<close>. Nothing masks
  it, and a fifth byte contributes its seven bits at offset 28, so the bound is \<open>2^35\<close>.
  It raises \<open>IndexError\<close> exactly when the input ends before that.
\<close>

theorem varint_stops:
  "(Integer_parse b = Inr (v, r) \<longrightarrow>
      (\<exists>c. b = c @ r \<and> c \<noteq> [] \<and> length c \<le> 5 \<and>
           (\<forall>t\<in>set (butlast c). t AND 0x80 \<noteq> 0) \<and>
           (last c AND 0x80 = 0 \<or> length c = 5) \<and>
           v = varint_value c) \<and>
      v < 2 ^ 35) \<and>
   (Integer_parse b = Inl e \<longrightarrow>
      e = IndexError \<and> length b < 5 \<and> (\<forall>t\<in>set b. t AND 0x80 \<noteq> 0))"
proof (intro conjI impI)
  assume res: "Integer_parse b = Inr (v, r)"
  then have "Integer_loop b 0 0 0 = Inr (v, r)" by (simp add: Integer_parse_def)
  from Integer_loop_consumed [OF _ this] obtain c where
    c: "b = c @ r" "c \<noteq> []" "length c \<le> 5" "\<forall>t\<in>set (butlast c). t AND 0x80 \<noteq> 0"
       "last c AND 0x80 = 0 \<or> length c = 5" "v = varint_value c"
    by auto
  then show "\<exists>c. b = c @ r \<and> c \<noteq> [] \<and> length c \<le> 5 \<and>
           (\<forall>t\<in>set (butlast c). t AND 0x80 \<noteq> 0) \<and>
           (last c AND 0x80 = 0 \<or> length c = 5) \<and>
           v = varint_value c" by blast
  have "v < 128 ^ length c" using c(6) varint_value_less by simp
  also have "(128::nat) ^ length c \<le> 128 ^ 5" using c(3) by (intro power_increasing) simp_all
  finally show "v < 2 ^ 35" by simp
next
  assume "Integer_parse b = Inl e"
  then have "Integer_loop b 0 0 0 = Inl e" by (simp add: Integer_parse_def)
  from Integer_loop_fails [OF this]
  show "e = IndexError" "length b < 5" "\<forall>t\<in>set b. t AND 0x80 \<noteq> 0" by simp_all
qed

theorem varint_stops_witness:
  "Integer_parse [0xff, 0xff, 0xff, 0xff, 0xff, 0x01] = Inr (34359738367, [0x01]) \<and>
   (\<exists>c. [0xff, 0xff, 0xff, 0xff, 0xff, 0x01] = c @ [0x01 :: byte] \<and> length c = 5 \<and>
        34359738367 = varint_value c) \<and>
   (34359738367 :: nat) < 2 ^ 35 \<and>
   Integer_parse [0x8c, 0x02, 0x07] = Inr (268, [0x07]) \<and>
   Integer_parse [0xff, 0xff] = Inl IndexError \<and> length [0xff, 0xff :: byte] < 5"
proof -
  have a: "Integer_parse [0xff, 0xff, 0xff, 0xff, 0xff, 0x01] = Inr (34359738367, [0x01])"
    and b: "Integer_parse [0x8c, 0x02, 0x07] = Inr (268, [0x07])"
    and c: "Integer_parse [0xff, 0xff] = Inl IndexError"
    by (simp_all add: Integer_parse_def Integer_loop_Cons Integer_loop_Nil Integer_loop_done)
  from a varint_stops [of "[0xff, 0xff, 0xff, 0xff, 0xff, 0x01]" 34359738367 "[0x01]" IndexError]
  have "\<exists>c. [0xff, 0xff, 0xff, 0xff, 0xff, 0x01] = c @ [0x01 :: byte] \<and> c \<noteq> [] \<and>
          length c \<le> 5 \<and> (\<forall>t\<in>set (butlast c). t AND 0x80 \<noteq> 0) \<and>
          (last c AND 0x80 = 0 \<or> length c = 5) \<and> 34359738367 = varint_value c"
    by blast
  then obtain c' where c': "[0xff, 0xff, 0xff, 0xff, 0xff, 0x01] = c' @ [0x01 :: byte]"
    "34359738367 = varint_value c'" by blast
  from c'(1) have "c' = [0xff, 0xff, 0xff, 0xff, 0xff]" by (simp add: append_eq_Cons_conv) 
  with c' have "\<exists>c. [0xff, 0xff, 0xff, 0xff, 0xff, 0x01] = c @ [0x01 :: byte] \<and> length c = 5 \<and>
        34359738367 = varint_value c" by (intro exI [of _ c']) simp
  moreover from c varint_stops [of "[0xff, 0xff]" 0 "[]" IndexError]
  have "length [0xff, 0xff :: byte] < 5" by blast
  ultimately show ?thesis using a b c by simp
qed

text \<open>
  The value is not below \<open>2^32\<close>: five bytes with all seven low bits set give
  \<open>2^35 - 1\<close>.
\<close>

theorem varint_value_not_32_bit:
  "Integer_parse [0xff, 0xff, 0xff, 0xff, 0x7f] = Inr (34359738367, []) \<and>
   \<not> (34359738367 :: nat) < 2 ^ 32"
  by (simp add: Integer_parse_def Integer_loop_Cons)

section \<open>The dispatcher\<close>

subsection \<open>Unfolding the loops\<close>

lemma Array_loop_0: "Array_loop 0 remain l = Inr (l, remain)"
  by (simp add: Array_loop.simps)

lemma Array_loop_Suc:
  "Array_loop (Suc k) remain l =
     (case Parser_parse remain of
        Inl e \<Rightarrow> Inl e
      | Inr (val, remain') \<Rightarrow> Array_loop k remain' (l @ [val]))"
  by (simp add: Array_loop.simps [of "Suc k"])

lemma TypedArray_loop_0: "TypedArray_loop 0 remain l = Inr (l, remain)"
  by (simp add: TypedArray_loop.simps)

lemma TypedArray_loop_Suc:
  "TypedArray_loop (Suc k) remain l =
     (case Parser_parse remain of
        Inl e \<Rightarrow> Inl e
      | Inr (val, remain') \<Rightarrow> TypedArray_loop k remain' (l @ [val]))"
  by (simp add: TypedArray_loop.simps [of "Suc k"])

lemma SparseArray_loop_0: "SparseArray_loop 0 remain l = Inr (l, remain)"
  by (simp add: SparseArray_loop.simps)

lemma SparseArray_loop_Suc:
  "SparseArray_loop (Suc k) remain l =
     (case Integer_parse remain of
        Inl e \<Rightarrow> Inl e
      | Inr (idx, remain') \<Rightarrow>
          (case Parser_parse remain' of
             Inl e \<Rightarrow> Inl e
           | Inr (val, remain'') \<Rightarrow>
               (if idx < length l then SparseArray_loop k remain'' (l[idx := val])
                else Inl IndexError)))"
  by (simp add: SparseArray_loop.simps [of "Suc k"])

lemma Dict_loop_0: "Dict_loop 0 remain d = Inr (d, remain)"
  by (simp add: Dict_loop.simps)

lemma Dict_loop_Suc:
  "Dict_loop (Suc j) remain d =
     (case Parser_parse remain of
        Inl e \<Rightarrow> Inl e
      | Inr (k, remain') \<Rightarrow>
          (case Parser_parse remain' of
             Inl e \<Rightarrow> Inl e
           | Inr (v, remain'') \<Rightarrow>
               (if hashable k then Dict_loop j remain'' (dict_setitem d k v)
                else Inl TypeError)))"
  by (simp add: Dict_loop.simps [of "Suc j"])

lemma Parser_parse_Nil: "Parser_parse [] = Inl IndexError"
  by (simp add: Parser_parse.simps)

lemma Parser_parse_Cons:
  "registry marker = Some cls \<Longrightarrow>
   Parser_parse (marker # remain) =
     (case cls of
        NoneConst \<Rightarrow> Inr (PNone, remain)
      | EmptyConst \<Rightarrow> Inr (PStr [], remain)
      | ZeroConst \<Rightarrow> Inr (PInt 0, remain)
      | TrueConst \<Rightarrow> Inr (PBool True, remain)
      | FalseConst \<Rightarrow> Inr (PBool False, remain)
      | Integer_class \<Rightarrow>
          (case Integer_parse remain of
             Inl e \<Rightarrow> Inl e
           | Inr (n, remain') \<Rightarrow> Inr (PInt n, remain'))
      | String_class \<Rightarrow>
          (case String_parse remain of
             Inl e \<Rightarrow> Inl e
           | Inr (s, remain') \<Rightarrow> Inr (PStr s, remain'))
      | Enum_class \<Rightarrow> Enum_parse remain
      | Color_class \<Rightarrow> Color_parse remain
      | Pair_class \<Rightarrow> Pair_parse remain
      | Triplet_class \<Rightarrow> Triplet_parse remain
      | Datetime_class \<Rightarrow> Datetime_parse remain
      | Unit_class \<Rightarrow> Unit_parse remain
      | RGBA_class \<Rightarrow> RGBA_parse remain
      | StringArray_class \<Rightarrow> StringArray_parse remain
      | Array_class \<Rightarrow> Array_parse remain
      | StringRef_class \<Rightarrow> StringRef_parse remain
      | FormattedString_class \<Rightarrow> FormattedString_parse remain
      | SparseArray_class \<Rightarrow> SparseArray_parse remain
      | Dict_class \<Rightarrow> Dict_parse remain
      | TypedArray_class \<Rightarrow> TypedArray_parse remain)"
  by (simp add: Parser_parse.simps)


lemma replicate_numeral_Cons: "replicate (numeral k) x = x # replicate (pred_numeral k) x"
  by (simp add: numeral_eq_Suc)

lemmas parse_eval = Parser_parse_Nil Parser_parse.simps Pair_parse.simps Triplet_parse.simps
  Array_parse.simps Array_loop.simps SparseArray_parse.simps SparseArray_loop.simps
  Dict_parse.simps Dict_loop.simps TypedArray_parse.simps TypedArray_loop.simps
  StringArray_parse_def StringRef_parse_def FormattedString_parse_def Type_parse_def
  Enum_parse_def Enum_val_def String_parse_def bytes_decode_def is_cont_def
  Color_parse_def Datetime_parse_def Unit_parse_def RGBA_parse_def
  Integer_parse_def Integer_loop_Cons Integer_loop_Nil Integer_loop_done registry_def
  char_of_def bit_Suc_0_iff replicate_numeral_Cons

text \<open>Two of the spec's scenarios: \<open>16 02 66 67\<close> and \<open>18 02 66 65 66 65\<close>.\<close>

lemma scenario_array:
  "Parser_parse [0x16, 0x02, 0x66, 0x67] = Inr (PList [PInt 0, PBool True], [])"
  by (simp add: parse_eval)

lemma scenario_dict:
  "Parser_parse [0x18, 0x02, 0x66, 0x65, 0x66, 0x65] = Inr (PDict [(PInt 0, PStr [])], [])"
  by (simp add: parse_eval)

section \<open>The enum decoder\<close>

text \<open>
  The error taxonomy of the spec (its section 7), read as the exceptions by which the
  code reports each condition: the three \<open>ViewStateException\<close>s (unknown
  marker, unknown type flag, unknown formatted-string tag), \<open>UnicodeDecodeError\<close>
  (invalid encoding), \<open>IndexError\<close> (truncated input, index out of range) and
  \<open>TypeError\<close> (unsupported key type).
\<close>

fun in_spec_taxonomy :: "error \<Rightarrow> bool" where
  "in_spec_taxonomy (ViewStateException m) = True"
| "in_spec_taxonomy UnicodeDecodeError = True"
| "in_spec_taxonomy IndexError = True"
| "in_spec_taxonomy TypeError = True"
| "in_spec_taxonomy UnboundLocalError = False"

text \<open>
  C10. When the byte after the enum marker is none of \<open>0x29\<close>, \<open>0x2a\<close>, \<open>0x2b\<close>,
  \<open>Enum.parse\<close> raises \<open>UnboundLocalError\<close>, which \<open>Parser.parse\<close> (it catches
  \<open>KeyError\<close> only) lets through; it is no \<open>ViewStateException\<close> and no error of the
  spec's taxonomy.
\<close>

theorem Enum_parse_unbound_local:
  "b0 \<noteq> 0x29 \<Longrightarrow> b0 \<noteq> 0x2a \<Longrightarrow> b0 \<noteq> 0x2b \<Longrightarrow>
   Enum_parse (b0 # rest) = Inl UnboundLocalError \<and>
   Parser_parse (0x0b # b0 # rest) = Inl UnboundLocalError \<and>
   \<not> is_ViewStateException UnboundLocalError \<and>
   \<not> in_spec_taxonomy UnboundLocalError"
proof -
  assume "b0 \<noteq> 0x29" "b0 \<noteq> 0x2a" "b0 \<noteq> 0x2b"
  then have e: "Enum_parse (b0 # rest) = Inl UnboundLocalError"
    by (simp add: Enum_parse_def)
  have "registry 0x0b = Some Enum_class" by (simp add: registry_def)
  then have "Parser_parse (0x0b # b0 # rest) = Enum_parse (b0 # rest)"
    by (simp add: Parser_parse_Cons)
  with e show ?thesis by (simp add: is_ViewStateException_def)
qed

theorem Enum_parse_unbound_local_witness:
  "(0x64 :: byte) \<noteq> 0x29 \<and> (0x64 :: byte) \<noteq> 0x2a \<and> (0x64 :: byte) \<noteq> 0x2b \<and>
   Enum_parse [0x64, 0x01] = Inl UnboundLocalError \<and>
   Parser_parse [0x0b, 0x64, 0x01] = Inl UnboundLocalError"
  using Enum_parse_unbound_local [of "0x64" "[0x01]"] by simp

section \<open>Typed arrays\<close>

lemma TypedArray_loop_Array_loop: "TypedArray_loop k remain l = Array_loop k remain l"
proof (induction k arbitrary: remain l)
  case 0
  show ?case by (simp add: TypedArray_loop_0 Array_loop_0)
next
  case (Suc k)
  then show ?case
    by (simp add: TypedArray_loop_Suc Array_loop_Suc split: sum.splits)
qed

text \<open>
  C9. \<open>TypedArray.parse\<close> never uses the value of the type descriptor: two inputs whose
  descriptors parse and leave the same bytes decode alike, and both as the plain array
  (marker \<open>0x16\<close>) of those bytes does, every element through \<open>Parser.parse\<close>.
\<close>

theorem TypedArray_type_informational:
  "Type_parse b1 = Inr (t1, r) \<Longrightarrow> Type_parse b2 = Inr (t2, r) \<Longrightarrow>
   TypedArray_parse b1 = TypedArray_parse b2 \<and>
   TypedArray_parse b1 = Array_parse r \<and>
   Parser_parse (0x14 # b1) = Parser_parse (0x14 # b2) \<and>
   Parser_parse (0x14 # b1) = Parser_parse (0x16 # r)"
proof -
  assume t1: "Type_parse b1 = Inr (t1, r)" and t2: "Type_parse b2 = Inr (t2, r)"
  have a: "TypedArray_parse b = Array_parse r" if "Type_parse b = Inr (t, r)" for b t
    using that
    by (simp add: TypedArray_parse.simps [of b] Array_parse.simps [of r]
        TypedArray_loop_Array_loop split: sum.splits)
  have r14: "registry 0x14 = Some TypedArray_class" and r16: "registry 0x16 = Some Array_class"
    by (simp_all add: registry_def)
  have p14: "Parser_parse (0x14 # b) = TypedArray_parse b" for b
    using r14 by (simp add: Parser_parse_Cons)
  have p16: "Parser_parse (0x16 # b) = Array_parse b" for b
    using r16 by (simp add: Parser_parse_Cons)
  from a [OF t1] a [OF t2] show ?thesis by (simp add: p14 p16)
qed

theorem TypedArray_type_informational_witness:
  "Type_parse [0x2b, 0x05, 0x01, 0x66] = Inr (PInt 5, [0x01, 0x66]) \<and>
   Type_parse [0x29, 0x01, 0x41, 0x01, 0x66] = Inr (PStr ''A'', [0x01, 0x66]) \<and>
   TypedArray_parse [0x2b, 0x05, 0x01, 0x66] = TypedArray_parse [0x29, 0x01, 0x41, 0x01, 0x66] \<and>
   TypedArray_parse [0x2b, 0x05, 0x01, 0x66] = Inr (PList [PInt 0], [])"
proof -
  have a: "Type_parse [0x2b, 0x05, 0x01, 0x66] = Inr (PInt 5, [0x01, 0x66])"
    and b: "Type_parse [0x29, 0x01, 0x41, 0x01, 0x66] = Inr (PStr ''A'', [0x01, 0x66])"
    and c: "Array_parse [0x01, 0x66] = Inr (PList [PInt 0], [])"
    by (simp_all add: parse_eval)
  from TypedArray_type_informational [OF a b]
  have e1: "TypedArray_parse [0x2b, 0x05, 0x01, 0x66] =
            TypedArray_parse [0x29, 0x01, 0x41, 0x01, 0x66]"
    and e2: "TypedArray_parse [0x2b, 0x05, 0x01, 0x66] = Array_parse [0x01, 0x66]"
    by blast+
  from e2 c have e3: "TypedArray_parse [0x2b, 0x05, 0x01, 0x66] = Inr (PList [PInt 0], [])"
    by (rule trans)
  from a b e1 e3 show ?thesis by (intro conjI)
qed

section \<open>Every decoder consumes a prefix\<close>

lemma suffix_consumed: "suffix r b \<Longrightarrow> \<exists>c. b = c @ r"
  by (auto simp: suffix_def)

lemma strict_suffix_consumed: "strict_suffix r b \<Longrightarrow> \<exists>c. c \<noteq> [] \<and> b = c @ r"
  by (auto simp: strict_suffix_def suffix_def)

lemma Color_parse_suffix: "Color_parse b = Inr (v, r) \<Longrightarrow> suffix r b"
  by (auto simp: Color_parse_def suffix_drop)

lemma Datetime_parse_suffix: "Datetime_parse b = Inr (v, r) \<Longrightarrow> suffix r b"
  by (auto simp: Datetime_parse_def suffix_drop)

lemma Unit_parse_suffix: "Unit_parse b = Inr (v, r) \<Longrightarrow> suffix r b"
  by (auto simp: Unit_parse_def suffix_drop)

lemma Pair_parse_suffix: "Pair_parse b = Inr (v, r) \<Longrightarrow> suffix r b"
  using parse_dom_suffix(2) [OF parse_total(2)] by blast

lemma Triplet_parse_suffix: "Triplet_parse b = Inr (v, r) \<Longrightarrow> suffix r b"
  using parse_dom_suffix(3) [OF parse_total(3)] by blast

lemma Array_parse_suffix: "Array_parse b = Inr (v, r) \<Longrightarrow> suffix r b"
  using parse_dom_suffix(4) [OF parse_total(4)] by blast

lemma Array_loop_suffix: "Array_loop k b l = Inr (l', r) \<Longrightarrow> suffix r b"
  using parse_dom_suffix(5) [OF parse_total(5)] by blast

lemma SparseArray_parse_suffix: "SparseArray_parse b = Inr (v, r) \<Longrightarrow> suffix r b"
  using parse_dom_suffix(6) [OF parse_total(6)] by blast

lemma SparseArray_loop_suffix: "SparseArray_loop k b l = Inr (l', r) \<Longrightarrow> suffix r b"
  using parse_dom_suffix(7) [OF parse_total(7)] by blast

lemma Dict_parse_suffix: "Dict_parse b = Inr (v, r) \<Longrightarrow> suffix r b"
  using parse_dom_suffix(8) [OF parse_total(8)] by blast

lemma Dict_loop_suffix: "Dict_loop k b d = Inr (d', r) \<Longrightarrow> suffix r b"
  using parse_dom_suffix(9) [OF parse_total(9)] by blast

lemma TypedArray_parse_suffix: "TypedArray_parse b = Inr (v, r) \<Longrightarrow> suffix r b"
  using parse_dom_suffix(10) [OF parse_total(10)] by blast

lemma TypedArray_loop_suffix: "TypedArray_loop k b l = Inr (l', r) \<Longrightarrow> suffix r b"
  using parse_dom_suffix(11) [OF parse_total(11)] by blast

text \<open>
  C8. Whenever a decoder returns, what it returns as remaining bytes is the input with a
  prefix \<open>c\<close> removed: for \<open>Parser.parse\<close> (where \<open>c\<close> holds at least the marker), for
  every decoder of the registry, for \<open>Type.parse\<close>, and for the element loops of the
  containers from any state, so for every nested decode as well.
\<close>

theorem decoders_consume_prefix:
  "(Parser_parse b = Inr (v, r) \<longrightarrow> (\<exists>c. c \<noteq> [] \<and> b = c @ r)) \<and>
   (Integer_parse b = Inr (n, r) \<longrightarrow> (\<exists>c. c \<noteq> [] \<and> b = c @ r)) \<and>
   (String_parse b = Inr (s, r) \<longrightarrow> (\<exists>c. c \<noteq> [] \<and> b = c @ r)) \<and>
   (Type_parse b = Inr (v, r) \<longrightarrow> (\<exists>c. c \<noteq> [] \<and> b = c @ r)) \<and>
   (Enum_parse b = Inr (v, r) \<longrightarrow> (\<exists>c. b = c @ r)) \<and>
   (Color_parse b = Inr (v, r) \<longrightarrow> (\<exists>c. b = c @ r)) \<and>
   (Datetime_parse b = Inr (v, r) \<longrightarrow> (\<exists>c. b = c @ r)) \<and>
   (Unit_parse b = Inr (v, r) \<longrightarrow> (\<exists>c. b = c @ r)) \<and>
   (RGBA_parse b = Inr (v, r) \<longrightarrow> (\<exists>c. b = c @ r)) \<and>
   (StringArray_parse b = Inr (v, r) \<longrightarrow> (\<exists>c. b = c @ r)) \<and>
   (StringRef_parse b = Inr (v, r) \<longrightarrow> (\<exists>c. b = c @ r)) \<and>
   (FormattedString_parse b = Inr (v, r) \<longrightarrow> (\<exists>c. b = c @ r)) \<and>
   (Pair_parse b = Inr (v, r) \<longrightarrow> (\<exists>c. b = c @ r)) \<and>
   (Triplet_parse b = Inr (v, r) \<longrightarrow> (\<exists>c. b = c @ r)) \<and>
   (Array_parse b = Inr (v, r) \<longrightarrow> (\<exists>c. b = c @ r)) \<and>
   (SparseArray_parse b = Inr (v, r) \<longrightarrow> (\<exists>c. b = c @ r)) \<and>
   (Dict_parse b = Inr (v, r) \<longrightarrow> (\<exists>c. b = c @ r)) \<and>
   (TypedArray_parse b = Inr (v, r) \<longrightarrow> (\<exists>c. b = c @ r)) \<and>
   (StringArray_loop k b l = Inr (l', r) \<longrightarrow> (\<exists>c. b = c @ r)) \<and>
   (Array_loop k b l = Inr (l', r) \<longrightarrow> (\<exists>c. b = c @ r)) \<and>
   (TypedArray_loop k b l = Inr (l', r) \<longrightarrow> (\<exists>c. b = c @ r)) \<and>
   (SparseArray_loop k b l = Inr (l', r) \<longrightarrow> (\<exists>c. b = c @ r)) \<and>
   (Dict_loop k b d = Inr (d', r) \<longrightarrow> (\<exists>c. b = c @ r))"
proof (intro conjI impI)
  show "\<exists>c. c \<noteq> [] \<and> b = c @ r" if "Parser_parse b = Inr (v, r)"
    using that by (intro strict_suffix_consumed Parser_parse_suffix)
  show "\<exists>c. c \<noteq> [] \<and> b = c @ r" if "Integer_parse b = Inr (n, r)"
    using that by (intro strict_suffix_consumed Integer_parse_suffix)
  show "\<exists>c. c \<noteq> [] \<and> b = c @ r" if "String_parse b = Inr (s, r)"
    using that by (intro strict_suffix_consumed String_parse_suffix)
  show "\<exists>c. c \<noteq> [] \<and> b = c @ r" if "Type_parse b = Inr (v, r)"
    using that by (intro strict_suffix_consumed Type_parse_suffix)
  show "\<exists>c. b = c @ r" if "Enum_parse b = Inr (v, r)"
    using that by (intro suffix_consumed Enum_parse_suffix)
  show "\<exists>c. b = c @ r" if "Color_parse b = Inr (v, r)"
    using that by (intro suffix_consumed Color_parse_suffix)
  show "\<exists>c. b = c @ r" if "Datetime_parse b = Inr (v, r)"
    using that by (intro suffix_consumed Datetime_parse_suffix)
  show "\<exists>c. b = c @ r" if "Unit_parse b = Inr (v, r)"
    using that by (intro suffix_consumed Unit_parse_suffix)
  show "\<exists>c. b = c @ r" if "RGBA_parse b = Inr (v, r)"
    using that by (intro suffix_consumed RGBA_parse_suffix)
  show "\<exists>c. b = c @ r" if "StringArray_parse b = Inr (v, r)"
    using that by (intro suffix_consumed StringArray_parse_suffix)
  show "\<exists>c. b = c @ r" if "StringRef_parse b = Inr (v, r)"
    using that by (intro suffix_consumed StringRef_parse_suffix)
  show "\<exists>c. b = c @ r" if "FormattedString_parse b = Inr (v, r)"
    using that by (intro suffix_consumed FormattedString_parse_suffix)
  show "\<exists>c. b = c @ r" if "Pair_parse b = Inr (v, r)"
    using that by (intro suffix_consumed Pair_parse_suffix)
  show "\<exists>c. b = c @ r" if "Triplet_parse b = Inr (v, r)"
    using that by (intro suffix_consumed Triplet_parse_suffix)
  show "\<exists>c. b = c @ r" if "Array_parse b = Inr (v, r)"
    using that by (intro suffix_consumed Array_parse_suffix)
  show "\<exists>c. b = c @ r" if "SparseArray_parse b = Inr (v, r)"
    using that by (intro suffix_consumed SparseArray_parse_suffix)
  show "\<exists>c. b = c @ r" if "Dict_parse b = Inr (v, r)"
    using that by (intro suffix_consumed Dict_parse_suffix)
  show "\<exists>c. b = c @ r" if "TypedArray_parse b = Inr (v, r)"
    using that by (intro suffix_consumed TypedArray_parse_suffix)
  show "\<exists>c. b = c @ r" if "StringArray_loop k b l = Inr (l', r)"
    using that by (intro suffix_consumed StringArray_loop_suffix)
  show "\<exists>c. b = c @ r" if "Array_loop k b l = Inr (l', r)"
    using that by (intro suffix_consumed Array_loop_suffix)
  show "\<exists>c. b = c @ r" if "TypedArray_loop k b l = Inr (l', r)"
    using that by (intro suffix_consumed TypedArray_loop_suffix)
  show "\<exists>c. b = c @ r" if "SparseArray_loop k b l = Inr (l', r)"
    using that by (intro suffix_consumed SparseArray_loop_suffix)
  show "\<exists>c. b = c @ r" if "Dict_loop k b d = Inr (d', r)"
    using that by (intro suffix_consumed Dict_loop_suffix)
qed

theorem decoders_consume_prefix_witness:
  "Parser_parse [0x16, 0x02, 0x66, 0x67, 0xAA] = Inr (PList [PInt 0, PBool True], [0xAA]) \<and>
   (\<exists>c. c \<noteq> [] \<and> [0x16, 0x02, 0x66, 0x67, 0xAA] = c @ [0xAA :: byte])"
proof -
  have p: "Parser_parse [0x16, 0x02, 0x66, 0x67, 0xAA] = Inr (PList [PInt 0, PBool True], [0xAA])"
    by (simp add: parse_eval)
  with decoders_consume_prefix
    [of "[0x16, 0x02, 0x66, 0x67, 0xAA]" "PList [PInt 0, PBool True]" "[0xAA]"]
  show ?thesis by blast
qed

section \<open>String arrays\<close>

text \<open>
  The element rule in the spec's words, to compare \<open>StringArray.parse\<close> with: when the
  next byte is zero, consume that byte and produce the empty string; otherwise decode a
  full length-prefixed string. Where there is no next byte the code's \<open>remain[0]\<close>
  raises \<open>IndexError\<close>. \<open>StringArray_elements\<close> decodes \<open>k\<close> elements in sequence.
\<close>

definition StringArray_element :: "bytes \<Rightarrow> string result" where
  "StringArray_element remain =
     (case remain of
        [] \<Rightarrow> Inl IndexError
      | r0 # rest \<Rightarrow> if r0 = 0 then Inr ([], rest) else String_parse remain)"

fun StringArray_elements :: "nat \<Rightarrow> bytes \<Rightarrow> (string list) result" where
  "StringArray_elements 0 remain = Inr ([], remain)"
| "StringArray_elements (Suc k) remain =
     (case StringArray_element remain of
        Inl e \<Rightarrow> Inl e
      | Inr (s, remain') \<Rightarrow>
          (case StringArray_elements k remain' of
             Inl e \<Rightarrow> Inl e
           | Inr (ss, r) \<Rightarrow> Inr (s # ss, r)))"

lemma StringArray_loop_elements:
  "StringArray_loop k remain l =
     (case StringArray_elements k remain of
        Inl e \<Rightarrow> Inl e
      | Inr (ss, r) \<Rightarrow> Inr (l @ map PStr ss, r))"
proof (induction k arbitrary: remain l)
  case 0
  show ?case by simp
next
  case (Suc k)
  show ?case
  proof (cases remain)
    case Nil
    then show ?thesis by (simp add: StringArray_element_def)
  next
    case (Cons r0 rest)
    show ?thesis
    proof (cases "r0 = 0")
      case True
      with Cons show ?thesis
        by (simp add: StringArray_element_def Suc.IH split: sum.splits)
    next
      case False
      with Cons show ?thesis
        by (simp add: StringArray_element_def Suc.IH split: sum.splits)
    qed
  qed
qed

text \<open>
  C7. \<open>StringArray.parse\<close> decodes the varint count \<open>n\<close> and then \<open>n\<close> elements by the
  element rule; \<open>15 01 00\<close> is the array of one empty string, nothing remaining.
\<close>

theorem StringArray_element_rule:
  "StringArray_parse b =
     (case Integer_parse b of
        Inl e \<Rightarrow> Inl e
      | Inr (n, remain) \<Rightarrow>
          (case StringArray_elements n remain of
             Inl e \<Rightarrow> Inl e
           | Inr (ss, r) \<Rightarrow> Inr (PList (map PStr ss), r))) \<and>
   StringArray_element (0 # rest) = Inr ([], rest) \<and>
   (r0 \<noteq> 0 \<longrightarrow> StringArray_element (r0 # rest) = String_parse (r0 # rest)) \<and>
   Parser_parse [0x15, 0x01, 0x00] = Inr (PList [PStr []], [])"
proof (intro conjI impI)
  show "StringArray_parse b =
     (case Integer_parse b of
        Inl e \<Rightarrow> Inl e
      | Inr (n, remain) \<Rightarrow>
          (case StringArray_elements n remain of
             Inl e \<Rightarrow> Inl e
           | Inr (ss, r) \<Rightarrow> Inr (PList (map PStr ss), r)))"
    by (simp add: StringArray_parse_def StringArray_loop_elements split: sum.splits)
  show "StringArray_element (0 # rest) = Inr ([], rest)"
    by (simp add: StringArray_element_def)
  show "StringArray_element (r0 # rest) = String_parse (r0 # rest)" if "r0 \<noteq> 0"
    using that by (simp add: StringArray_element_def)
  show "Parser_parse [0x15, 0x01, 0x00] = Inr (PList [PStr []], [])"
    by (simp add: parse_eval)
qed

theorem StringArray_element_rule_witness:
  "(0x01 :: byte) \<noteq> 0 \<and>
   StringArray_element [0x01, 0x41, 0x00] = Inr (''A'', [0x00]) \<and>
   StringArray_parse [0x02, 0x00, 0x01, 0x41] = Inr (PList [PStr [], PStr ''A''], [])"
proof -
  have s: "String_parse [0x01, 0x41, 0x00] = Inr (''A'', [0x00])"
    and i: "Integer_parse [0x02, 0x00, 0x01, 0x41] = Inr (2, [0x00, 0x01, 0x41])"
    and t: "String_parse [0x01, 0x41] = Inr (''A'', [])"
    by (simp_all add: parse_eval)
  from StringArray_element_rule [of "[0x02, 0x00, 0x01, 0x41]" "[0x41, 0x00]" "0x01"] s
  have a: "StringArray_element [0x01, 0x41, 0x00] = Inr (''A'', [0x00])"
    and b: "StringArray_parse [0x02, 0x00, 0x01, 0x41] =
      (case Integer_parse [0x02, 0x00, 0x01, 0x41] of
        Inl e \<Rightarrow> Inl e
      | Inr (n, remain) \<Rightarrow>
          (case StringArray_elements n remain of
             Inl e \<Rightarrow> Inl e
           | Inr (ss, r) \<Rightarrow> Inr (PList (map PStr ss), r)))"
    by simp_all
  have "StringArray_elements 2 [0x00, 0x01, 0x41] = Inr ([[], ''A''], [])"
    using t by (simp add: numeral_2_eq_2 StringArray_element_def)
  with b i have "StringArray_parse [0x02, 0x00, 0x01, 0x41] = Inr (PList [PStr [], PStr ''A''], [])"
    by simp
  with a show ?thesis by simp
qed

section \<open>Dictionaries\<close>

text \<open>
  The entries of a dictionary as its loop decodes them, without the insertion: \<open>j\<close>
  times a key and then a value, each by \<open>Parser.parse\<close>. \<open>dict_insert_all\<close> stores a
  list of entries in order.
\<close>

fun Dict_entries :: "nat \<Rightarrow> bytes \<Rightarrow> ((value \<times> value) list) result" where
  "Dict_entries 0 remain = Inr ([], remain)"
| "Dict_entries (Suc j) remain =
     (case Parser_parse remain of
        Inl e \<Rightarrow> Inl e
      | Inr (k, remain') \<Rightarrow>
          (case Parser_parse remain' of
             Inl e \<Rightarrow> Inl e
           | Inr (v, remain'') \<Rightarrow>
               (case Dict_entries j remain'' of
                  Inl e \<Rightarrow> Inl e
                | Inr (es, r) \<Rightarrow> Inr ((k, v) # es, r))))"

fun dict_insert_all :: "(value \<times> value) list \<Rightarrow> (value \<times> value) list \<Rightarrow> (value \<times> value) list" where
  "dict_insert_all d [] = d"
| "dict_insert_all d ((k, v) # es) = dict_insert_all (dict_setitem d k v) es"

lemma Dict_entries_length: "Dict_entries j remain = Inr (es, r) \<Longrightarrow> length es = j"
  by (induction j arbitrary: remain es) (auto split: sum.splits)

lemma Dict_loop_of_entries:
  "Dict_entries j remain = Inr (es, r) \<Longrightarrow>
   Dict_loop j remain d =
     (if list_all (\<lambda>(k, v). hashable k) es then Inr (dict_insert_all d es, r)
      else Inl TypeError)"
proof (induction j arbitrary: remain es d)
  case 0
  then show ?case by (simp add: Dict_loop_0)
next
  case (Suc j)
  from Suc.prems obtain k r1 v r2 es' where
    k: "Parser_parse remain = Inr (k, r1)" and v: "Parser_parse r1 = Inr (v, r2)" and
    es': "Dict_entries j r2 = Inr (es', r)" and es: "es = (k, v) # es'"
    by (auto split: sum.splits)
  show ?case
  proof (cases "hashable k")
    case True
    with k v es Suc.IH [OF es', of "dict_setitem d k v"] show ?thesis
      by (simp add: Dict_loop_Suc)
  next
    case False
    with k v es show ?thesis by (simp add: Dict_loop_Suc)
  qed
qed

lemma Dict_loop_entries:
  "Dict_loop j remain d = Inr (d', r) \<Longrightarrow> \<exists>es. Dict_entries j remain = Inr (es, r)"
proof (induction j arbitrary: remain d)
  case 0
  then show ?case by (simp add: Dict_loop_0)
next
  case (Suc j)
  from Suc.prems obtain k r1 v r2 where
    k: "Parser_parse remain = Inr (k, r1)" and v: "Parser_parse r1 = Inr (v, r2)" and
    l: "Dict_loop j r2 (dict_setitem d k v) = Inr (d', r)"
    by (auto simp: Dict_loop_Suc split: sum.splits if_splits)
  from Suc.IH [OF l] obtain es where "Dict_entries j r2 = Inr (es, r)" ..
  with k v show ?case by simp
qed

lemma Dict_loop_success:
  "Dict_loop j remain d = Inr (d', r) \<Longrightarrow>
   \<exists>es. Dict_entries j remain = Inr (es, r) \<and> length es = j \<and>
        list_all (\<lambda>(k, v). hashable k) es \<and> d' = dict_insert_all d es"
proof -
  assume l: "Dict_loop j remain d = Inr (d', r)"
  then obtain es where es: "Dict_entries j remain = Inr (es, r)"
    by (blast dest: Dict_loop_entries)
  from Dict_loop_of_entries [OF es, of d] l
  have "list_all (\<lambda>(k, v). hashable k) es \<and> d' = dict_insert_all d es"
    by (auto split: if_splits)
  with es Dict_entries_length [OF es] show ?thesis by blast
qed

lemma Dict_parse_Nil: "Dict_parse [] = Inl IndexError"
  by (simp add: Dict_parse.simps)

lemma Dict_parse_Cons:
  "Dict_parse (c # rest) =
     (case Dict_loop (unat c) rest [] of
        Inl e \<Rightarrow> Inl e
      | Inr (d, r) \<Rightarrow> Inr (PDict d, r))"
  by (simp add: Dict_parse.simps [of "c # rest"])

lemma Parser_parse_Dict: "Parser_parse (0x18 # b) = Dict_parse b"
proof -
  have "registry 0x18 = Some Dict_class" by (simp add: registry_def)
  then show ?thesis by (simp add: Parser_parse_Cons)
qed

text \<open>
  C5. \<open>Dict.parse\<close> takes the count from the first byte alone, as a number from 0 to
  255: it raises \<open>IndexError\<close> without it, runs the loop that many times, and when it
  returns, exactly that many entries have been decoded from the bytes after it. With a
  count byte of zero the result is the empty dictionary and the bytes after the count
  byte. The byte \<open>0x80\<close> is the count 128, not the start of a two-byte varint.
\<close>

theorem Dict_count_byte:
  "Dict_parse [] = Inl IndexError \<and>
   Dict_parse (c # rest) =
     (case Dict_loop (unat c) rest [] of
        Inl e \<Rightarrow> Inl e
      | Inr (d, r) \<Rightarrow> Inr (PDict d, r)) \<and>
   unat c \<le> 255 \<and>
   (Dict_parse (c # rest) = Inr (v, r) \<longrightarrow>
      (\<exists>es. Dict_entries (unat c) rest = Inr (es, r) \<and> length es = unat c \<and>
            v = PDict (dict_insert_all [] es))) \<and>
   Dict_parse (0 # rest) = Inr (PDict [], rest) \<and>
   Parser_parse (0x18 # 0 # rest) = Inr (PDict [], rest) \<and>
   Parser_parse [0x18, 0x80, 0x00] = Inl (ViewStateException (Unknown_marker 0))"
proof (intro conjI impI)
  show "Dict_parse [] = Inl IndexError" by (rule Dict_parse_Nil)
  show "Dict_parse (c # rest) =
     (case Dict_loop (unat c) rest [] of
        Inl e \<Rightarrow> Inl e
      | Inr (d, r) \<Rightarrow> Inr (PDict d, r))" by (rule Dict_parse_Cons)
  have "unat c < 2 ^ LENGTH(8)" by (rule unsigned_less)
  then show "unat c \<le> 255" by simp
  show "\<exists>es. Dict_entries (unat c) rest = Inr (es, r) \<and> length es = unat c \<and>
            v = PDict (dict_insert_all [] es)"
    if "Dict_parse (c # rest) = Inr (v, r)"
  proof -
    from that obtain d where l: "Dict_loop (unat c) rest [] = Inr (d, r)" and v: "v = PDict d"
      by (auto simp: Dict_parse_Cons split: sum.splits)
    from Dict_loop_success [OF l] v show ?thesis by blast
  qed
  show z: "Dict_parse (0 # rest) = Inr (PDict [], rest)"
    by (simp add: Dict_parse_Cons Dict_loop_0)
  show "Parser_parse (0x18 # 0 # rest) = Inr (PDict [], rest)"
    by (simp add: Parser_parse_Dict z)
  show "Parser_parse [0x18, 0x80, 0x00] = Inl (ViewStateException (Unknown_marker 0))"
    by (simp add: Parser_parse_Dict Dict_parse_Cons Dict_loop.simps [of 128] Parser_parse.simps
        registry_def)
qed

theorem Dict_count_byte_witness:
  "Dict_parse [0x02, 0x66, 0x65, 0x67, 0x64, 0xAA] =
     Inr (PDict [(PInt 0, PStr []), (PBool True, PNone)], [0xAA]) \<and>
   (\<exists>es. Dict_entries (unat (0x02 :: byte)) [0x66, 0x65, 0x67, 0x64, 0xAA] = Inr (es, [0xAA]) \<and>
         length es = 2)"
proof -
  have p: "Dict_parse [0x02, 0x66, 0x65, 0x67, 0x64, 0xAA] =
     Inr (PDict [(PInt 0, PStr []), (PBool True, PNone)], [0xAA])"
    by (simp add: parse_eval)
  with Dict_count_byte [of "0x02" "[0x66, 0x65, 0x67, 0x64, 0xAA]"
      "PDict [(PInt 0, PStr []), (PBool True, PNone)]" "[0xAA]"]
  show ?thesis by auto
qed

text \<open>
  C6, as the code has it. A key that is a list or a dictionary (or a tuple with one
  inside) is not hashable. The loop decodes the key, then the value, and only then
  stores the entry: with such a key it raises \<open>TypeError\<close> when the value decodes, and
  otherwise fails as the decoding of the value failed. So a dictionary that decodes has
  hashable keys only, and when all its entries decode and one key is not hashable the
  result is \<open>TypeError\<close>. The code has no check of its own and no \<open>ViewStateException\<close>
  for it.
\<close>

theorem Dict_key_not_hashable:
  "\<not> hashable (PList l) \<and> \<not> hashable (PDict m) \<and>
   (Parser_parse remain = Inr (k, r1) \<and> \<not> hashable k \<longrightarrow>
      (\<forall>v r2. Parser_parse r1 = Inr (v, r2) \<longrightarrow> Dict_loop (Suc j) remain d = Inl TypeError) \<and>
      (\<forall>e. Parser_parse r1 = Inl e \<longrightarrow> Dict_loop (Suc j) remain d = Inl e)) \<and>
   (Dict_parse (c # rest) = Inr (v, r) \<longrightarrow>
      (\<exists>es. Dict_entries (unat c) rest = Inr (es, r) \<and> list_all (\<lambda>(k, v). hashable k) es)) \<and>
   (Dict_entries (unat c) rest = Inr (es, r) \<and> \<not> list_all (\<lambda>(k, v). hashable k) es \<longrightarrow>
      Dict_parse (c # rest) = Inl TypeError) \<and>
   \<not> is_ViewStateException TypeError"
proof (intro conjI impI allI)
  show "\<not> hashable (PList l)" "\<not> hashable (PDict m)" by simp_all
  show "Dict_loop (Suc j) remain d = Inl TypeError"
    if "Parser_parse remain = Inr (k, r1) \<and> \<not> hashable k" "Parser_parse r1 = Inr (v, r2)"
    for v r2
    using that by (simp add: Dict_loop_Suc)
  show "Dict_loop (Suc j) remain d = Inl e"
    if "Parser_parse remain = Inr (k, r1) \<and> \<not> hashable k" "Parser_parse r1 = Inl e" for e
    using that by (simp add: Dict_loop_Suc)
  show "\<exists>es. Dict_entries (unat c) rest = Inr (es, r) \<and> list_all (\<lambda>(k, v). hashable k) es"
    if "Dict_parse (c # rest) = Inr (v, r)"
  proof -
    from that obtain d where l: "Dict_loop (unat c) rest [] = Inr (d, r)"
      by (auto simp: Dict_parse_Cons split: sum.splits)
    from Dict_loop_success [OF l] show ?thesis by blast
  qed
  show "Dict_parse (c # rest) = Inl TypeError"
    if "Dict_entries (unat c) rest = Inr (es, r) \<and> \<not> list_all (\<lambda>(k, v). hashable k) es"
    using that by (simp add: Dict_parse_Cons Dict_loop_of_entries)
  show "\<not> is_ViewStateException TypeError" by (simp add: is_ViewStateException_def)
qed

theorem Dict_key_not_hashable_witness:
  "Parser_parse [0x16, 0x00, 0x64] = Inr (PList [], [0x64]) \<and> \<not> hashable (PList []) \<and>
   Parser_parse [0x64] = Inr (PNone, []) \<and>
   Dict_loop (Suc 0) [0x16, 0x00, 0x64] [] = Inl TypeError \<and>
   Dict_entries (unat (0x01 :: byte)) [0x16, 0x00, 0x64] = Inr ([(PList [], PNone)], []) \<and>
   Dict_parse [0x01, 0x16, 0x00, 0x64] = Inl TypeError \<and>
   Dict_parse [0x01, 0x66, 0x64] = Inr (PDict [(PInt 0, PNone)], []) \<and>
   (\<exists>es. Dict_entries (unat (0x01 :: byte)) [0x66, 0x64] = Inr (es, []) \<and>
         list_all (\<lambda>(k, v). hashable k) es)"
proof -
  have k: "Parser_parse [0x16, 0x00, 0x64] = Inr (PList [], [0x64])"
    and v: "Parser_parse [0x64] = Inr (PNone, [])"
    and es: "Dict_entries (unat (0x01 :: byte)) [0x16, 0x00, 0x64] = Inr ([(PList [], PNone)], [])"
    and ok: "Dict_parse [0x01, 0x66, 0x64] = Inr (PDict [(PInt 0, PNone)], [])"
    by (simp_all add: parse_eval)
  note t = Dict_key_not_hashable [of "[]" "[]" "[0x16, 0x00, 0x64]" "PList []" "[0x64]" 0 "[]"
      "0x01" "[0x16, 0x00, 0x64]" _ "[]" "[(PList [], PNone)]"]
  from t k v have a: "Dict_loop (Suc 0) [0x16, 0x00, 0x64] [] = Inl TypeError" by simp
  from t es have b: "Dict_parse [0x01, 0x16, 0x00, 0x64] = Inl TypeError" by simp
  from Dict_key_not_hashable [of "[]" "[]" "[]" PNone "[]" 0 "[]"
      "0x01" "[0x66, 0x64]" "PDict [(PInt 0, PNone)]" "[]" "[]"] ok
  have c: "\<exists>es. Dict_entries (unat (0x01 :: byte)) [0x66, 0x64] = Inr (es, []) \<and>
         list_all (\<lambda>(k, v). hashable k) es" by blast
  from k v es ok a b c show ?thesis by simp
qed

text \<open>
  The key of this dictionary decodes to a list, and decoding fails with the exception
  for the unknown marker of the value, not for the key; with a value that decodes, the
  exception is the runtime's \<open>TypeError\<close>.
\<close>

theorem Dict_container_key_other_error:
  "Parser_parse [0x16, 0x00, 0x00] = Inr (PList [], [0x00]) \<and>
   Parser_parse [0x18, 0x01, 0x16, 0x00, 0x00] = Inl (ViewStateException (Unknown_marker 0)) \<and>
   Parser_parse [0x18, 0x01, 0x16, 0x00, 0x64] = Inl TypeError"
  by (simp add: parse_eval)

section \<open>Sparse arrays\<close>

text \<open>
  The \<open>k\<close> (index, value) entries as the loop of \<open>SparseArray.parse\<close> decodes them,
  without the placement: a varint index, then a value by \<open>Parser.parse\<close>.
  \<open>SparseArray_fill\<close> writes a list of entries into a list, in order.
\<close>

fun SparseArray_entries :: "nat \<Rightarrow> bytes \<Rightarrow> ((nat \<times> value) list) result" where
  "SparseArray_entries 0 remain = Inr ([], remain)"
| "SparseArray_entries (Suc k) remain =
     (case Integer_parse remain of
        Inl e \<Rightarrow> Inl e
      | Inr (idx, remain') \<Rightarrow>
          (case Parser_parse remain' of
             Inl e \<Rightarrow> Inl e
           | Inr (val, remain'') \<Rightarrow>
               (case SparseArray_entries k remain'' of
                  Inl e \<Rightarrow> Inl e
                | Inr (es, r) \<Rightarrow> Inr ((idx, val) # es, r))))"

fun SparseArray_fill :: "value list \<Rightarrow> (nat \<times> value) list \<Rightarrow> value list" where
  "SparseArray_fill l [] = l"
| "SparseArray_fill l ((idx, val) # es) = SparseArray_fill (l[idx := val]) es"

lemma SparseArray_fill_length: "length (SparseArray_fill l es) = length l"
  by (induction l es rule: SparseArray_fill.induct) simp_all

lemma SparseArray_fill_unwritten:
  "i \<notin> fst ` set es \<Longrightarrow> SparseArray_fill l es ! i = l ! i"
  by (induction l es rule: SparseArray_fill.induct) auto

lemma SparseArray_entries_length: "SparseArray_entries k remain = Inr (es, r) \<Longrightarrow> length es = k"
  by (induction k arbitrary: remain es) (auto split: sum.splits)

lemma SparseArray_loop_of_entries:
  "SparseArray_entries k remain = Inr (es, r) \<Longrightarrow>
   SparseArray_loop k remain l =
     (if list_all (\<lambda>(idx, val). idx < length l) es then Inr (SparseArray_fill l es, r)
      else Inl IndexError)"
proof (induction k arbitrary: remain es l)
  case 0
  then show ?case by (simp add: SparseArray_loop_0)
next
  case (Suc k)
  from Suc.prems obtain idx r1 val r2 es' where
    i: "Integer_parse remain = Inr (idx, r1)" and v: "Parser_parse r1 = Inr (val, r2)" and
    es': "SparseArray_entries k r2 = Inr (es', r)" and es: "es = (idx, val) # es'"
    by (auto split: sum.splits)
  show ?case
  proof (cases "idx < length l")
    case True
    with i v es Suc.IH [OF es', of "l[idx := val]"] show ?thesis
      by (simp add: SparseArray_loop_Suc)
  next
    case False
    with i v es show ?thesis by (simp add: SparseArray_loop_Suc)
  qed
qed

lemma SparseArray_loop_entries:
  "SparseArray_loop k remain l = Inr (l', r) \<Longrightarrow> \<exists>es. SparseArray_entries k remain = Inr (es, r)"
proof (induction k arbitrary: remain l)
  case 0
  then show ?case by (simp add: SparseArray_loop_0)
next
  case (Suc k)
  from Suc.prems obtain idx r1 val r2 where
    i: "Integer_parse remain = Inr (idx, r1)" and v: "Parser_parse r1 = Inr (val, r2)" and
    l: "SparseArray_loop k r2 (l[idx := val]) = Inr (l', r)"
    by (auto simp: SparseArray_loop_Suc split: sum.splits if_splits)
  from Suc.IH [OF l] obtain es where "SparseArray_entries k r2 = Inr (es, r)" ..
  with i v show ?case by simp
qed

lemma SparseArray_loop_success:
  "SparseArray_loop k remain l = Inr (l', r) \<Longrightarrow>
   \<exists>es. SparseArray_entries k remain = Inr (es, r) \<and> length es = k \<and>
        list_all (\<lambda>(idx, val). idx < length l) es \<and> l' = SparseArray_fill l es"
proof -
  assume l: "SparseArray_loop k remain l = Inr (l', r)"
  then obtain es where es: "SparseArray_entries k remain = Inr (es, r)"
    by (blast dest: SparseArray_loop_entries)
  from SparseArray_loop_of_entries [OF es, of l] l
  have "list_all (\<lambda>(idx, val). idx < length l) es \<and> l' = SparseArray_fill l es"
    by (auto split: if_splits)
  with es SparseArray_entries_length [OF es] show ?thesis by blast
qed

lemma SparseArray_loop_split:
  "SparseArray_entries j remain = Inr (es, r) \<Longrightarrow>
   list_all (\<lambda>(idx, val). idx < length l) es \<Longrightarrow>
   SparseArray_loop (j + k) remain l = SparseArray_loop k r (SparseArray_fill l es)"
proof (induction j arbitrary: remain es l)
  case 0
  then show ?case by simp
next
  case (Suc j)
  from Suc.prems(1) obtain idx r1 val r2 es' where
    i: "Integer_parse remain = Inr (idx, r1)" and v: "Parser_parse r1 = Inr (val, r2)" and
    es': "SparseArray_entries j r2 = Inr (es', r)" and es: "es = (idx, val) # es'"
    by (auto split: sum.splits)
  from Suc.prems(2) es have lt: "idx < length l"
    and rest: "list_all (\<lambda>(i, x). i < length (l[idx := val])) es'"
    by simp_all
  from Suc.IH [OF es' rest]
  have "SparseArray_loop (j + k) r2 (l[idx := val]) =
          SparseArray_loop k r (SparseArray_fill (l[idx := val]) es')" .
  with i v lt es show ?case by (simp add: SparseArray_loop_Suc)
qed

lemma SparseArray_loop_bad_index:
  "Integer_parse remain = Inr (idx, remain') \<Longrightarrow> length l \<le> idx \<Longrightarrow>
   SparseArray_loop (Suc k) remain l =
     (case Parser_parse remain' of Inl e \<Rightarrow> Inl e | Inr (val, remain'') \<Rightarrow> Inl IndexError)"
  by (simp add: SparseArray_loop_Suc split: sum.splits)

lemma SparseArray_parse_bad_index:
  assumes t: "Type_parse b = Inr (ty, r0)" and len: "Integer_parse r0 = Inr (len, r1)"
    and n: "Integer_parse r1 = Inr (n, r2)" and j: "j < n"
    and es: "SparseArray_entries j r2 = Inr (es, r3)"
    and below: "\<forall>(i, x)\<in>set es. i < len"
    and idx: "Integer_parse r3 = Inr (idx, r4)" and bad: "len \<le> idx"
  shows "SparseArray_parse b =
     (case Parser_parse r4 of Inl e \<Rightarrow> Inl e | Inr (val, r5) \<Rightarrow> Inl IndexError)"
proof -
  from j obtain k where nk: "n = j + Suc k" by (auto simp: less_iff_Suc_add)
  from below have "list_all (\<lambda>(idx, val). idx < length (replicate len PNone)) es"
    by (auto simp: list_all_iff)
  from SparseArray_loop_split [OF es this, of "Suc k"] nk
  have "SparseArray_loop n r2 (replicate len PNone) =
          SparseArray_loop (Suc k) r3 (SparseArray_fill (replicate len PNone) es)" by simp
  also have "\<dots> = (case Parser_parse r4 of Inl e \<Rightarrow> Inl e
                    | Inr (val, r5) \<Rightarrow> Inl IndexError)"
    using idx bad by (intro SparseArray_loop_bad_index) (simp_all add: SparseArray_fill_length)
  finally have "SparseArray_loop n r2 (replicate len PNone) =
      (case Parser_parse r4 of Inl e \<Rightarrow> Inl e | Inr (val, r5) \<Rightarrow> Inl IndexError)" .
  with t len n show ?thesis
    by (simp add: SparseArray_parse.simps [of b] split: sum.splits)
qed

text \<open>
  C2, as the code has it. When \<open>SparseArray.parse\<close> returns, the type descriptor, the
  varints \<open>len\<close> and \<open>n\<close> and the \<open>n\<close> entries \<open>es\<close> have been decoded in that order,
  every index of \<open>es\<close> is below \<open>len\<close>, and the result is the list of \<open>len\<close> \<open>None\<close>s
  with the entries written into it: it has length \<open>len\<close>, and \<open>None\<close> wherever no
  entry wrote. The code checks no index: \<open>l[idx] = val\<close> raises \<open>IndexError\<close>, after
  the entry's value has been decoded. So the first entry whose decoded index is not below
  \<open>len\<close> makes the decoder fail with the error of decoding that entry's value when
  there is one, and with \<open>IndexError\<close> otherwise; the same holds in the loop from
  any state; and when all entries decode and an index is not below \<open>len\<close>, the result is
  \<open>IndexError\<close>.
\<close>

theorem SparseArray_invariant:
  "(SparseArray_parse b = Inr (v, r) \<longrightarrow>
      (\<exists>ty r0 len r1 n r2 es l.
         Type_parse b = Inr (ty, r0) \<and> Integer_parse r0 = Inr (len, r1) \<and>
         Integer_parse r1 = Inr (n, r2) \<and> SparseArray_entries n r2 = Inr (es, r) \<and>
         length es = n \<and> (\<forall>(idx, val)\<in>set es. idx < len) \<and>
         v = PList l \<and> l = SparseArray_fill (replicate len PNone) es \<and>
         length l = len \<and> (\<forall>i<len. i \<notin> fst ` set es \<longrightarrow> l ! i = PNone))) \<and>
   (Type_parse b = Inr (ty, r0) \<and> Integer_parse r0 = Inr (len, r1) \<and>
    Integer_parse r1 = Inr (n, r2) \<and> j < n \<and> SparseArray_entries j r2 = Inr (es', r3) \<and>
    (\<forall>(i, x)\<in>set es'. i < len) \<and> Integer_parse r3 = Inr (idx', r4) \<and> len \<le> idx' \<longrightarrow>
      SparseArray_parse b =
        (case Parser_parse r4 of Inl e \<Rightarrow> Inl e | Inr (val, r5) \<Rightarrow> Inl IndexError)) \<and>
   (Integer_parse remain = Inr (idx, remain') \<and> length l \<le> idx \<longrightarrow>
      SparseArray_loop (Suc k) remain l =
        (case Parser_parse remain' of Inl e \<Rightarrow> Inl e
         | Inr (val, remain'') \<Rightarrow> Inl IndexError)) \<and>
   (Type_parse b = Inr (ty, r0) \<and> Integer_parse r0 = Inr (len, r1) \<and>
    Integer_parse r1 = Inr (n, r2) \<and> SparseArray_entries n r2 = Inr (es, r) \<and>
    (\<exists>(idx, val)\<in>set es. len \<le> idx) \<longrightarrow>
      SparseArray_parse b = Inl IndexError)"
proof (intro conjI impI)
  assume res: "SparseArray_parse b = Inr (v, r)"
  then obtain ty r0 len r1 n r2 l where
    t: "Type_parse b = Inr (ty, r0)" and len: "Integer_parse r0 = Inr (len, r1)" and
    n: "Integer_parse r1 = Inr (n, r2)" and
    loop: "SparseArray_loop n r2 (replicate len PNone) = Inr (l, r)" and v: "v = PList l"
    by (auto simp: SparseArray_parse.simps [of b] split: sum.splits)
  from SparseArray_loop_success [OF loop] obtain es where
    es: "SparseArray_entries n r2 = Inr (es, r)" "length es = n"
      "list_all (\<lambda>(idx, val). idx < len) es" "l = SparseArray_fill (replicate len PNone) es"
    by auto
  from es(3) have below: "\<forall>(idx, val)\<in>set es. idx < len" by (simp add: list_all_iff)
  from es(4) have ll: "length l = len" by (simp add: SparseArray_fill_length)
  from es(4) have un: "\<forall>i<len. i \<notin> fst ` set es \<longrightarrow> l ! i = PNone"
    by (simp add: SparseArray_fill_unwritten)
  from t len n es(1,2) below v es(4) ll un
  show "\<exists>ty r0 len r1 n r2 es l.
         Type_parse b = Inr (ty, r0) \<and> Integer_parse r0 = Inr (len, r1) \<and>
         Integer_parse r1 = Inr (n, r2) \<and> SparseArray_entries n r2 = Inr (es, r) \<and>
         length es = n \<and> (\<forall>(idx, val)\<in>set es. idx < len) \<and>
         v = PList l \<and> l = SparseArray_fill (replicate len PNone) es \<and>
         length l = len \<and> (\<forall>i<len. i \<notin> fst ` set es \<longrightarrow> l ! i = PNone)"
    by blast
next
  assume a: "Type_parse b = Inr (ty, r0) \<and> Integer_parse r0 = Inr (len, r1) \<and>
    Integer_parse r1 = Inr (n, r2) \<and> j < n \<and> SparseArray_entries j r2 = Inr (es', r3) \<and>
    (\<forall>(i, x)\<in>set es'. i < len) \<and> Integer_parse r3 = Inr (idx', r4) \<and> len \<le> idx'"
  then show "SparseArray_parse b =
      (case Parser_parse r4 of Inl e \<Rightarrow> Inl e | Inr (val, r5) \<Rightarrow> Inl IndexError)"
    by (intro SparseArray_parse_bad_index [where j = j and es = es']) blast+
next
  assume "Integer_parse remain = Inr (idx, remain') \<and> length l \<le> idx"
  then show "SparseArray_loop (Suc k) remain l =
      (case Parser_parse remain' of Inl e \<Rightarrow> Inl e | Inr (val, remain'') \<Rightarrow> Inl IndexError)"
    by (simp add: SparseArray_loop_bad_index)
next
  assume a: "Type_parse b = Inr (ty, r0) \<and> Integer_parse r0 = Inr (len, r1) \<and>
    Integer_parse r1 = Inr (n, r2) \<and> SparseArray_entries n r2 = Inr (es, r) \<and>
    (\<exists>(idx, val)\<in>set es. len \<le> idx)"
  then have "\<not> list_all (\<lambda>(idx, val). idx < length (replicate len PNone)) es"
    by (fastforce simp: list_all_iff)
  with a have "SparseArray_loop n r2 (replicate len PNone) = Inl IndexError"
    by (simp add: SparseArray_loop_of_entries)
  with a show "SparseArray_parse b = Inl IndexError"
    by (simp add: SparseArray_parse.simps [of b])
qed

theorem SparseArray_invariant_witness:
  "SparseArray_parse [0x2b, 0x00, 0x03, 0x01, 0x01, 0x67] =
     Inr (PList [PNone, PBool True, PNone], []) \<and>
   length [PNone, PBool True, PNone] = 3 \<and>
   Type_parse [0x2b, 0x00, 0x01, 0x02, 0x00, 0x67, 0x05, 0x00] =
     Inr (PInt 0, [0x01, 0x02, 0x00, 0x67, 0x05, 0x00]) \<and>
   SparseArray_entries 1 [0x00, 0x67, 0x05, 0x00] = Inr ([(0, PBool True)], [0x05, 0x00]) \<and>
   Integer_parse [0x05, 0x00] = Inr (5, [0x00]) \<and>
   Parser_parse [0x00] = Inl (ViewStateException (Unknown_marker 0x00)) \<and>
   SparseArray_parse [0x2b, 0x00, 0x01, 0x02, 0x00, 0x67, 0x05, 0x00] =
     Inl (ViewStateException (Unknown_marker 0x00)) \<and>
   Parser_parse [0x67] = Inr (PBool True, []) \<and>
   SparseArray_loop (Suc 0) [0x05, 0x67] [PNone] = Inl IndexError \<and>
   SparseArray_entries 1 [0x05, 0x67] = Inr ([(5, PBool True)], []) \<and>
   SparseArray_parse [0x2b, 0x00, 0x01, 0x01, 0x05, 0x67] = Inl IndexError"
proof -
  have ok: "SparseArray_parse [0x2b, 0x00, 0x03, 0x01, 0x01, 0x67] =
     Inr (PList [PNone, PBool True, PNone], [])"
    and e1: "SparseArray_entries 1 [0x01, 0x67] = Inr ([(1, PBool True)], [])"
    and t: "Type_parse [0x2b, 0x00, 0x01, 0x01, 0x05, 0x67] = Inr (PInt 0, [0x01, 0x01, 0x05, 0x67])"
    and i1: "Integer_parse [0x01, 0x01, 0x05, 0x67] = Inr (1, [0x01, 0x05, 0x67])"
    and i2: "Integer_parse [0x01, 0x05, 0x67] = Inr (1, [0x05, 0x67])"
    and e2: "SparseArray_entries 1 [0x05, 0x67] = Inr ([(5, PBool True)], [])"
    and i3: "Integer_parse [0x05, 0x67] = Inr (5, [0x67])"
    and p: "Parser_parse [0x67] = Inr (PBool True, [])"
    by (simp_all add: parse_eval)
  have t': "Type_parse [0x2b, 0x00, 0x01, 0x02, 0x00, 0x67, 0x05, 0x00] =
     Inr (PInt 0, [0x01, 0x02, 0x00, 0x67, 0x05, 0x00])"
    and i1': "Integer_parse [0x01, 0x02, 0x00, 0x67, 0x05, 0x00] =
      Inr (1, [0x02, 0x00, 0x67, 0x05, 0x00])"
    and i2': "Integer_parse [0x02, 0x00, 0x67, 0x05, 0x00] = Inr (2, [0x00, 0x67, 0x05, 0x00])"
    and e3: "SparseArray_entries 1 [0x00, 0x67, 0x05, 0x00] =
      Inr ([(0, PBool True)], [0x05, 0x00])"
    and i3': "Integer_parse [0x05, 0x00] = Inr (5, [0x00])"
    and p': "Parser_parse [0x00] = Inl (ViewStateException (Unknown_marker 0x00))"
    by (simp_all add: parse_eval)
  from SparseArray_invariant [where b = "[0x2b, 0x00, 0x03, 0x01, 0x01, 0x67]"
      and v = "PList [PNone, PBool True, PNone]" and r = "[]"] ok
  have "\<exists>l. PList [PNone, PBool True, PNone] = PList l \<and> length l = 3"
    using e1 by (auto simp: parse_eval)
  then have a: "length [PNone, PBool True, PNone] = 3" by simp
  from SparseArray_invariant [where b = "[0x2b, 0x00, 0x01, 0x02, 0x00, 0x67, 0x05, 0x00]"
      and ty = "PInt 0" and ?r0.0 = "[0x01, 0x02, 0x00, 0x67, 0x05, 0x00]" and len = 1
      and ?r1.0 = "[0x02, 0x00, 0x67, 0x05, 0x00]" and n = 2
      and ?r2.0 = "[0x00, 0x67, 0x05, 0x00]" and j = 1 and es' = "[(0, PBool True)]"
      and ?r3.0 = "[0x05, 0x00]" and idx' = 5 and ?r4.0 = "[0x00]"]
    t' i1' i2' e3 i3' p'
  have b: "SparseArray_parse [0x2b, 0x00, 0x01, 0x02, 0x00, 0x67, 0x05, 0x00] =
     Inl (ViewStateException (Unknown_marker 0x00))"
    by simp
  from SparseArray_invariant [where remain = "[0x05, 0x67]" and idx = 5
      and remain' = "[0x67]" and l = "[PNone]" and k = 0] i3 p
  have c: "SparseArray_loop (Suc 0) [0x05, 0x67] [PNone] = Inl IndexError"
    by simp
  from SparseArray_invariant [where b = "[0x2b, 0x00, 0x01, 0x01, 0x05, 0x67]"
      and ty = "PInt 0" and ?r0.0 = "[0x01, 0x01, 0x05, 0x67]" and len = 1
      and ?r1.0 = "[0x01, 0x05, 0x67]" and n = 1 and ?r2.0 = "[0x05, 0x67]"
      and es = "[(5, PBool True)]" and r = "[]"] t i1 i2 e2
  have d: "SparseArray_parse [0x2b, 0x00, 0x01, 0x01, 0x05, 0x67] = Inl IndexError"
    by simp
  show ?thesis
    apply (intro conjI)
    subgoal by (rule ok)
    subgoal by (rule a)
    subgoal by (rule t')
    subgoal by (rule e3)
    subgoal by (rule i3')
    subgoal by (rule p')
    subgoal by (rule b)
    subgoal by (rule p)
    subgoal by (rule c)
    subgoal by (rule e2)
    subgoal by (rule d)
    done
qed

text \<open>
  An entry with index \<open>5\<close> in a sparse array of length \<open>1\<close> whose value does not
  decode: the error is that of the value, \<open>Unknown marker 0\<close>, not an index error.
\<close>

theorem SparseArray_bad_index_other_error:
  "Integer_parse [0x00, 0x01, 0x01, 0x05, 0x00] = Inr (0, [0x01, 0x01, 0x05, 0x00]) \<and>
   Integer_parse [0x01, 0x01, 0x05, 0x00] = Inr (1, [0x01, 0x05, 0x00]) \<and>
   Integer_parse [0x01, 0x05, 0x00] = Inr (1, [0x05, 0x00]) \<and>
   Integer_parse [0x05, 0x00] = Inr (5, [0x00]) \<and>
   SparseArray_parse [0x2b, 0x00, 0x01, 0x01, 0x05, 0x00] =
     Inl (ViewStateException (Unknown_marker 0x00)) \<and>
   Parser_parse [0x3c, 0x2b, 0x00, 0x01, 0x01, 0x05, 0x00] =
     Inl (ViewStateException (Unknown_marker 0x00))"
  by (simp add: parse_eval)

section \<open>Decoding a truncated input\<close>

text \<open>
  The decoders that take bytes by slicing: \<open>String.parse\<close> (\<open>remain[:n]\<close>),
  \<open>Color.parse\<close>, \<open>Datetime.parse\<close> and \<open>Unit.parse\<close> (\<open>b[2:]\<close>, \<open>b[8:]\<close>,
  \<open>b[12:]\<close>). \<open>slicing_bytes\<close> are the bytes that select one of them when they are
  read as a marker or as a type flag: the markers of \<open>String\<close>, \<open>Enum\<close>, \<open>Color\<close>,
  \<open>Datetime\<close>, \<open>Unit\<close>, \<open>StringArray\<close> and \<open>FormattedString\<close>, and the flags
  \<open>0x29\<close> and \<open>0x2a\<close> of \<open>Type.parse\<close>.
\<close>

definition slicing_bytes :: "byte list" where
  "slicing_bytes = [0x05, 0x1e, 0x0b, 0x0a, 0x06, 0x1b, 0x15, 0x28, 0x29, 0x2a]"

definition no_slicing :: "bytes \<Rightarrow> bool" where
  "no_slicing b = (\<forall>x\<in>set b. x \<notin> set slicing_bytes)"

text \<open>
  \<open>truncated sl res\<close>: the outcomes a decoder has when the input ends too early: the
  \<open>IndexError\<close> of a read past the end and, when a slice may have been taken (\<open>sl\<close>), the
  \<open>UnicodeDecodeError\<close> of a text cut inside a character, or a value with no bytes
  remaining. \<open>cut sl full s short\<close> compares the run of a decoder on \<open>b @ s\<close> with its
  run on \<open>b\<close>: when the first returns, the second either returns the same value and
  leaves \<open>s\<close> less, or has a truncated outcome.
\<close>

definition truncated :: "bool \<Rightarrow> 'a result \<Rightarrow> bool" where
  "truncated sl res =
     (res = Inl IndexError \<or>
      (sl \<and> (res = Inl UnicodeDecodeError \<or> (\<exists>v. res = Inr (v, [])))))"

definition cut :: "bool \<Rightarrow> 'a result \<Rightarrow> bytes \<Rightarrow> 'a result \<Rightarrow> bool" where
  "cut sl full s short =
     (\<forall>v r. full = Inr (v, r) \<longrightarrow>
        (\<exists>r'. short = Inr (v, r') \<and> r = r' @ s) \<or> truncated sl short)"



lemma no_slicing_Cons: "sl \<or> no_slicing (x # b) \<Longrightarrow> sl \<or> no_slicing b"
  by (auto simp: no_slicing_def)



lemma truncated_simps [simp]:
  "truncated sl (Inl IndexError)" "truncated True (Inl UnicodeDecodeError)"
  "truncated True (Inr (v, []))"
  by (simp_all add: truncated_def)



lemma cut_pure [simp]: "cut sl (Inr (v, r' @ s)) s (Inr (v, r'))"
  by (simp add: cut_def)

lemma cut_error [simp]: "cut sl (Inl e) s short"
  by (simp add: cut_def)

























lemma Type_parse_Nil: "Type_parse [] = Inl IndexError"
  by (simp add: Type_parse_def)















end
